theory Spec2Isabelle
  imports Main
begin

section \<open>The workflow plugin (PluginWorkflowServer): data\<close>

text \<open>
  The embedding follows the class \<^verbatim>\<open>PluginWorkflowServer\<close>. Its private fields, the two
  storage tables it reads and writes, the calls it makes on its collaborators (loggers,
  triggers, the Processor, transactions) and the asynchronous calls that are suspended at
  an \<^verbatim>\<open>await\<close> are the components of one state record; every method is a function on
  that state. An \<^verbatim>\<open>async\<close> method is cut at the awaits where the fields of the plugin
  can change under it: the code up to the await is one function, the code after it
  another, and the suspended call is a \<open>task\<close> of the state.
\<close>

type_synonym ID = nat

text \<open>A status is a JavaScript value \<^verbatim>\<open>number | null\<close>; \<open>None\<close> is \<^verbatim>\<open>null\<close>.\<close>

type_synonym status = "int option"

text \<open>The truth value JavaScript gives a status in \<^verbatim>\<open>execution.status && ...\<close>.\<close>

definition truthy :: "status \<Rightarrow> bool" where
  "truthy st = (case st of None \<Rightarrow> False | Some n \<Rightarrow> n \<noteq> 0)"

type_synonym jsobject = "(string \<times> int) list"

record Transaction =
  tx_id :: nat
  tx_sequelize :: nat

text \<open>\<^verbatim>\<open>EventOptions\<close>; an absent \<^verbatim>\<open>deferred\<close> or \<^verbatim>\<open>manually\<close> is \<open>False\<close>.\<close>

record EventOptions =
  o_eventKey :: "string option"
  o_deferred :: bool
  o_manually :: bool
  o_transaction :: "Transaction option"

record WorkflowOptions =
  deleteExecutionOnStatus :: "status list option"

text \<open>
  \<^verbatim>\<open>WorkflowModel\<close>. \<open>w_current\<close> is \<^verbatim>\<open>true | false | null\<close>; \<open>w_previous_config\<close> is
  \<^verbatim>\<open>workflow.previous().config\<close>, the configuration before a change (\<open>None\<close> when it
  is absent or null).
\<close>

record WorkflowModel =
  w_id :: ID
  w_key :: string
  w_type :: string
  w_enabled :: bool
  w_current :: "bool option"
  w_sync :: bool
  w_executed :: nat
  w_allExecuted :: nat
  w_options :: "WorkflowOptions option"
  w_config :: jsobject
  w_previous_config :: "jsobject option"

text \<open>\<^verbatim>\<open>ExecutionModel\<close>; \<open>e_workflow\<close> is the relation, attached or not.\<close>

record ExecutionModel =
  e_id :: ID
  e_workflowId :: ID
  e_key :: string
  e_eventKey :: string
  e_context :: jsobject
  e_status :: status
  e_workflow :: "WorkflowModel option"

record JobModel =
  j_id :: ID
  j_executionId :: ID
  j_execution :: "ExecutionModel option"

type_synonym Pending = "ExecutionModel \<times> JobModel option"

type_synonym CachedEvent = "WorkflowModel \<times> jsobject \<times> EventOptions"

datatype error = TypeError string | Failure string

text \<open>
  A trigger implementation, as far as the plugin uses it: the \<^verbatim>\<open>sync\<close> flag and
  \<^verbatim>\<open>validateEvent\<close> (\<open>Inl\<close> when it throws). Its \<^verbatim>\<open>on\<close> and \<^verbatim>\<open>off\<close> are recorded as calls.
\<close>

record Trigger =
  t_sync :: "bool option"
  validateEvent :: "WorkflowModel \<Rightarrow> jsobject \<Rightarrow> EventOptions \<Rightarrow> error + bool"

text \<open>
  What the plugin imports and is configured with. The values of
  \<^verbatim>\<open>EXECUTION_STATUS.QUEUEING\<close> and \<^verbatim>\<open>EXECUTION_STATUS.STARTED\<close> come from
  \<^verbatim>\<open>./constants\<close> and are parameters here, as are the dialect of the database, the
  connection of the main data source and the trigger registry.
\<close>

record env =
  QUEUEING :: status
  STARTED :: status
  dialect :: string
  main_sequelize :: nat
  triggers :: "string \<Rightarrow> Trigger option"

datatype level = Warn | Info | Debug | Err

text \<open>The calls the plugin makes on its collaborators, in the order it makes them.\<close>

datatype effect =
    Log level string
  | TriggerOn string WorkflowModel
  | TriggerOff string WorkflowModel
  | SyncMessage ID bool "Transaction option"
  | WorkflowUpdate ID bool "bool option" "Transaction option" bool
  | TxBegin Transaction
  | TxCommit Transaction
  | TxRollback Transaction
  | ExecutionCreate ExecutionModel Transaction
  | ExecutionUpdate ID status "Transaction option"
  | ExecutionDestroy ID
  | ProcessorStart ID
  | ProcessorResume ID ID
  | Rejected error

text \<open>
  The asynchronous calls in flight, each waiting at the await its name says. \<open>Polling p\<close>
  and \<open>Processing p e j\<close> are the anonymous async function of \<^verbatim>\<open>dispatch\<close> whose promise
  is \<open>p\<close>; \<open>SyncProcessing\<close> is the \<^verbatim>\<open>process\<close> call that \<^verbatim>\<open>triggerSync\<close> made.
\<close>

datatype task =
    Starting
  | PrepareTimer
  | PrepareWaiting nat
  | Preparing CachedEvent
  | Polling nat
  | Processing nat ExecutionModel "JobModel option"
  | SyncCreating WorkflowModel jsobject EventOptions
  | SyncProcessing ExecutionModel

text \<open>
  The plugin's fields (\<open>ready\<close> to \<open>checker\<close>; \<open>executing\<close> holds the promise or is
  \<open>None\<close> for \<^verbatim>\<open>null\<close>; \<open>enabledCache\<close> is the \<^verbatim>\<open>Map\<close> in insertion order), the tables
  \<open>workflows\<close> and \<open>executions\<close>, the suspended calls, the calls made so far, and the
  counters from which transactions, execution ids and promises are numbered.
\<close>

record sys =
  ready :: bool
  executing :: "nat option"
  pending :: "Pending list"
  events :: "CachedEvent list"
  eventsCount :: nat
  enabledCache :: "(ID \<times> WorkflowModel) list"
  checker :: bool
  workflows :: "WorkflowModel list"
  executions :: "ExecutionModel list"
  tasks :: "task list"
  effects :: "effect list"
  tx_seq :: nat
  exec_seq :: nat
  promise_seq :: nat

definition emit :: "effect \<Rightarrow> sys \<Rightarrow> sys" where
  "emit x s = s\<lparr>effects := effects s @ [x]\<rparr>"

definition spawn :: "task \<Rightarrow> sys \<Rightarrow> sys" where
  "spawn t s = s\<lparr>tasks := tasks s @ [t]\<rparr>"

definition remove_nth :: "nat \<Rightarrow> 'a list \<Rightarrow> 'a list" where
  "remove_nth k xs = take k xs @ drop (Suc k) xs"

text \<open>\<^verbatim>\<open>Map.set\<close> and \<^verbatim>\<open>Map.delete\<close> on the cache.\<close>

fun cache_set :: "ID \<Rightarrow> WorkflowModel \<Rightarrow> (ID \<times> WorkflowModel) list \<Rightarrow> (ID \<times> WorkflowModel) list" where
  "cache_set k v [] = [(k, v)]"
| "cache_set k v ((k', v') # c) = (if k' = k then (k, v) # c else (k', v') # cache_set k v c)"

definition cache_delete :: "ID \<Rightarrow> (ID \<times> WorkflowModel) list \<Rightarrow> (ID \<times> WorkflowModel) list" where
  "cache_delete k c = filter (\<lambda>kv. fst kv \<noteq> k) c"

section \<open>Trigger registration of a workflow: toggle\<close>

text \<open>
  \<^verbatim>\<open>toggle(workflow, enable, { silent, transaction })\<close>. An unregistered trigger type is
  logged and nothing else happens.
\<close>

definition toggle :: "env \<Rightarrow> WorkflowModel \<Rightarrow> bool option \<Rightarrow> bool \<Rightarrow> Transaction option \<Rightarrow> sys \<Rightarrow> sys" where
  "toggle E workflow enable silent transaction s =
    (case triggers E (w_type workflow) of
      None \<Rightarrow> emit (Log Err ''trigger type of workflow is not implemented'') s
    | Some trigger \<Rightarrow>
        let nxt = (case enable of Some b \<Rightarrow> b | None \<Rightarrow> w_enabled workflow);
            s1 = (if nxt then
                    (let s0 = (case w_previous_config workflow of
                                 Some c \<Rightarrow> emit (TriggerOff (w_type workflow) (workflow\<lparr>w_config := c\<rparr>)) s
                               | None \<Rightarrow> s);
                         s0' = emit (TriggerOn (w_type workflow) workflow) s0
                     in s0'\<lparr>enabledCache := cache_set (w_id workflow) workflow (enabledCache s0')\<rparr>)
                  else
                    (let s0 = emit (TriggerOff (w_type workflow) workflow) s
                     in s0\<lparr>enabledCache := cache_delete (w_id workflow) (enabledCache s0)\<rparr>))
        in if \<not> silent then emit (SyncMessage (w_id workflow) nxt transaction) s1 else s1)"

section \<open>The beforeSave hook of workflows\<close>

text \<open>
  \<^verbatim>\<open>Model.findOne({ where: { key, current: true, id: { [Op.ne]: instance.id } } })\<close>. The
  instance is taken with its primary key assigned; a new one has a key no row has yet.
\<close>

definition find_previous :: "WorkflowModel \<Rightarrow> WorkflowModel list \<Rightarrow> WorkflowModel option" where
  "find_previous instance rows =
     find (\<lambda>r. w_key r = w_key instance \<and> w_current r = Some True \<and> w_id r \<noteq> w_id instance) rows"

text \<open>\<^verbatim>\<open>previous.update({ enabled: false, current: null }, ...)\<close> on the table.\<close>

definition demote_row :: "ID \<Rightarrow> WorkflowModel list \<Rightarrow> WorkflowModel list" where
  "demote_row i rows =
     map (\<lambda>r. if w_id r = i then r\<lparr>w_enabled := False, w_current := None\<rparr> else r) rows"

text \<open>
  \<^verbatim>\<open>onBeforeSave(instance, { transaction })\<close>: returns the instance as the hook leaves it,
  and the state.
\<close>

definition onBeforeSave :: "env \<Rightarrow> WorkflowModel \<Rightarrow> Transaction option \<Rightarrow> sys \<Rightarrow> WorkflowModel \<times> sys" where
  "onBeforeSave E instance transaction s =
    (let instance1 = (if w_enabled instance then instance\<lparr>w_current := Some True\<rparr> else instance);
         previous = find_previous instance1 (workflows s);
         instance2 = (if previous = None then instance1\<lparr>w_current := Some True\<rparr> else instance1)
     in case previous of
          None \<Rightarrow> (instance2, s)
        | Some p \<Rightarrow>
            if w_current instance2 = Some True then
              (let s1 = emit (WorkflowUpdate (w_id p) False None transaction False)
                          (s\<lparr>workflows := demote_row (w_id p) (workflows s)\<rparr>);
                   p' = p\<lparr>w_enabled := False, w_current := None\<rparr>
               in (instance2, toggle E p' (Some False) False transaction s1))
            else (instance2, s))"

text \<open>
  The write that follows the hook is the storage layer's: the row with the instance's
  primary key is replaced, or the instance is inserted when no row has it.
\<close>

definition write_row :: "WorkflowModel \<Rightarrow> WorkflowModel list \<Rightarrow> WorkflowModel list" where
  "write_row instance rows =
     (if w_id instance \<in> set (map w_id rows)
      then map (\<lambda>r. if w_id r = w_id instance then instance else r) rows
      else rows @ [instance])"

text \<open>
  A save of a workflow: \<^verbatim>\<open>workflows.beforeSave\<close>, the write, then
  \<^verbatim>\<open>workflows.afterCreate\<close> (toggle on when enabled) or \<^verbatim>\<open>workflows.afterUpdate\<close>
  (toggle to \<^verbatim>\<open>model.enabled\<close>), as \<^verbatim>\<open>load\<close> registers them.
\<close>

definition save :: "env \<Rightarrow> WorkflowModel \<Rightarrow> Transaction option \<Rightarrow> sys \<Rightarrow> sys" where
  "save E instance transaction s =
    (let created = (w_id instance \<notin> set (map w_id (workflows s)));
         (model, s1) = onBeforeSave E instance transaction s;
         s2 = s1\<lparr>workflows := write_row model (workflows s1)\<rparr>
     in if created then (if w_enabled model then toggle E model (Some True) False transaction s2 else s2)
        else toggle E model (Some (w_enabled model)) False transaction s2)"

section \<open>Creating an execution\<close>

text \<open>
  \<^verbatim>\<open>useDataSourceTransaction('main', transaction, create)\<close>, for the main data source, whose
  collection manager has a database: the caller's transaction when it is one of the main
  connection, a new one when \<open>create\<close>, nothing otherwise.
\<close>

definition useDataSourceTransaction :: "env \<Rightarrow> Transaction option \<Rightarrow> bool \<Rightarrow> sys \<Rightarrow> Transaction option \<times> sys" where
  "useDataSourceTransaction E transaction create s =
    (if (case transaction of Some t \<Rightarrow> tx_sequelize t = main_sequelize E | None \<Rightarrow> False)
     then (transaction, s)
     else if create then
       (let t = \<lparr>tx_id = tx_seq s, tx_sequelize = main_sequelize E\<rparr>
        in (Some t, emit (TxBegin t) (s\<lparr>tx_seq := Suc (tx_seq s)\<rparr>)))
     else (None, s))"

text \<open>
  What the outside answers during one \<^verbatim>\<open>createExecution\<close>: the value of
  \<^verbatim>\<open>randomUUID()\<close>, and the error of the insert when the storage refuses it.
\<close>

record create_io =
  io_uuid :: string
  io_insert_error :: "string option"

text \<open>\<^verbatim>\<open>workflow.increment(['executed', 'allExecuted'])\<close> on the table.\<close>

definition increment_counters :: "ID \<Rightarrow> WorkflowModel list \<Rightarrow> WorkflowModel list" where
  "increment_counters i rows =
     map (\<lambda>r. if w_id r = i
               then r\<lparr>w_executed := w_executed r + 1, w_allExecuted := w_allExecuted r + 1\<rparr>
               else r) rows"

text \<open>
  The instance after the increment: postgres returns the new counters into it, on every
  other dialect the code reloads it from its row.
\<close>

definition refreshed :: "env \<Rightarrow> WorkflowModel \<Rightarrow> WorkflowModel list \<Rightarrow> WorkflowModel" where
  "refreshed E workflow rows =
     (case find (\<lambda>r. w_id r = w_id workflow) rows of
        None \<Rightarrow> workflow
      | Some r \<Rightarrow>
          if dialect E \<noteq> ''postgres'' then r
          else workflow\<lparr>w_executed := w_executed r, w_allExecuted := w_allExecuted r\<rparr>)"

text \<open>\<^verbatim>\<open>Model.update({ allExecuted }, { where: { key } })\<close> on the table.\<close>

definition update_allExecuted :: "string \<Rightarrow> nat \<Rightarrow> WorkflowModel list \<Rightarrow> WorkflowModel list" where
  "update_allExecuted k n rows =
     map (\<lambda>r. if w_key r = k then r\<lparr>w_allExecuted := n\<rparr> else r) rows"

text \<open>
  \<^verbatim>\<open>createExecution(workflow, context, options)\<close>: \<open>Inl\<close> when it throws, \<open>Inr None\<close> when
  it returns \<^verbatim>\<open>null\<close>. The row is stored without its relation; the object returned has
  \<^verbatim>\<open>execution.workflow = workflow\<close>.
\<close>

definition createExecution :: "env \<Rightarrow> create_io \<Rightarrow> WorkflowModel \<Rightarrow> jsobject \<Rightarrow> EventOptions \<Rightarrow> sys \<Rightarrow> (error + ExecutionModel option) \<times> sys" where
  "createExecution E io workflow ctx options s =
    (let deferred = o_deferred options
     in case useDataSourceTransaction E (o_transaction options) True s of
          (None, s1) \<Rightarrow> (Inl (TypeError ''transaction is undefined''), s1)
        | (Some transaction, s1) \<Rightarrow>
            (let sameTransaction = (o_transaction options = Some transaction)
             in case triggers E (w_type workflow) of
                  None \<Rightarrow> (Inl (TypeError ''trigger is undefined''), s1)
                | Some trigger \<Rightarrow>
                    (case validateEvent trigger workflow ctx (options\<lparr>o_transaction := Some transaction\<rparr>) of
                       Inl err \<Rightarrow> (Inl err, s1)
                     | Inr valid \<Rightarrow>
                         if \<not> valid then
                           (Inr None, if \<not> sameTransaction then emit (TxCommit transaction) s1 else s1)
                         else
                           (case io_insert_error io of
                              Some msg \<Rightarrow>
                                (Inl (Failure msg),
                                 if \<not> sameTransaction then emit (TxRollback transaction) s1 else s1)
                            | None \<Rightarrow>
                                (let execution =
                                       \<lparr>e_id = exec_seq s1,
                                        e_workflowId = w_id workflow,
                                        e_key = w_key workflow,
                                        e_eventKey = (case o_eventKey options of Some k \<Rightarrow> k | None \<Rightarrow> io_uuid io),
                                        e_context = ctx,
                                        e_status = (if deferred then STARTED E else QUEUEING E),
                                        e_workflow = None\<rparr>;
                                     s2 = emit (ExecutionCreate execution transaction)
                                            (s1\<lparr>executions := executions s1 @ [execution],
                                                exec_seq := Suc (exec_seq s1)\<rparr>);
                                     s3 = emit (Log Info ''execution of workflow created'') s2;
                                     s4 = s3\<lparr>workflows := increment_counters (w_id workflow) (workflows s3)\<rparr>;
                                     workflow' = refreshed E workflow (workflows s4);
                                     s5 = s4\<lparr>workflows :=
                                              update_allExecuted (w_key workflow') (w_allExecuted workflow') (workflows s4)\<rparr>;
                                     s6 = (if \<not> sameTransaction then emit (TxCommit transaction) s5 else s5)
                                 in (Inr (Some (execution\<lparr>e_workflow := Some workflow'\<rparr>)), s6))))))"

section \<open>Running an execution: process\<close>

definition set_status :: "ID \<Rightarrow> status \<Rightarrow> ExecutionModel list \<Rightarrow> ExecutionModel list" where
  "set_status i st rows = map (\<lambda>r. if e_id r = i then r\<lparr>e_status := st\<rparr> else r) rows"

text \<open>
  \<^verbatim>\<open>process(execution, job, options)\<close> up to the await of the Processor: the update of a
  queueing execution, \<^verbatim>\<open>createProcessor\<close>, the log line, and the call of
  \<^verbatim>\<open>processor.resume(job)\<close> or \<^verbatim>\<open>processor.start()\<close>. Returns the execution object as the
  Processor receives it.
\<close>

definition process_begin :: "env \<Rightarrow> ExecutionModel \<Rightarrow> JobModel option \<Rightarrow> Transaction option \<Rightarrow> sys \<Rightarrow> ExecutionModel \<times> sys" where
  "process_begin E execution job transaction s =
    (let (execution1, s1) =
           (if e_status execution = QUEUEING E then
              (execution\<lparr>e_status := STARTED E\<rparr>,
               emit (ExecutionUpdate (e_id execution) (STARTED E) transaction)
                 (s\<lparr>executions := set_status (e_id execution) (STARTED E) (executions s)\<rparr>))
            else (execution, s));
         s2 = emit (Log Info (if job \<noteq> None then ''execution resuming...'' else ''execution starting...'')) s1;
         s3 = emit (case job of
                      Some j \<Rightarrow> ProcessorResume (e_id execution) (j_id j)
                    | None \<Rightarrow> ProcessorStart (e_id execution)) s2
     in (execution1, s3))"

text \<open>
  How a run of the Processor ends: the status and the workflow relation it leaves on the
  execution object, and the message of the error when it throws.
\<close>

record outcome =
  out_status :: status
  out_workflow :: "WorkflowModel option"
  out_error :: "string option"

text \<open>
  Modelled from the spec: the Processor (\<^verbatim>\<open>./Processor\<close> is not among the sources). It runs
  the instructions and "sets execution status to the corresponding terminal value", or
  leaves it when it suspends; the status it leaves on the object is the one it persisted.
\<close>

definition Processor_settled :: "ExecutionModel \<Rightarrow> outcome \<Rightarrow> sys \<Rightarrow> ExecutionModel \<times> sys" where
  "Processor_settled execution out s =
     (execution\<lparr>e_status := out_status out, e_workflow := out_workflow out\<rparr>,
      s\<lparr>executions := set_status (e_id execution) (out_status out) (executions s)\<rparr>)"

text \<open>
  \<^verbatim>\<open>execution.workflow.options?.deleteExecutionOnStatus?.includes(execution.status)\<close>, for
  an attached workflow.
\<close>

definition delete_on_status :: "WorkflowModel \<Rightarrow> status \<Rightarrow> bool" where
  "delete_on_status w st =
     (case w_options w of
        None \<Rightarrow> False
      | Some opts \<Rightarrow> (case deleteExecutionOnStatus opts of None \<Rightarrow> False | Some l \<Rightarrow> st \<in> set l))"

text \<open>
  \<^verbatim>\<open>process\<close> from the await of the Processor on: the \<^verbatim>\<open>try\<close> block after the Processor
  returned, or the \<^verbatim>\<open>catch\<close> block. Reading \<^verbatim>\<open>options\<close> of a workflow that is not attached
  is a TypeError inside the \<^verbatim>\<open>try\<close>, caught like any other.
\<close>

definition process_end :: "ExecutionModel \<Rightarrow> string option \<Rightarrow> sys \<Rightarrow> sys" where
  "process_end execution thrown s =
    (case thrown of
       Some msg \<Rightarrow> emit (Log Err ''execution error'') s
     | None \<Rightarrow>
         (let s1 = emit (Log Info ''execution finished with status'') s
          in if truthy (e_status execution) then
               (case e_workflow execution of
                  None \<Rightarrow> emit (Log Err ''execution error'') s1
                | Some w \<Rightarrow>
                    if delete_on_status w (e_status execution) then
                      emit (ExecutionDestroy (e_id execution))
                        (s1\<lparr>executions := filter (\<lambda>r. e_id r \<noteq> e_id execution) (executions s1)\<rparr>)
                    else s1)
             else s1))"

text \<open>The Processor settles, then \<^verbatim>\<open>process\<close> goes on.\<close>

definition process_settled :: "ExecutionModel \<Rightarrow> outcome \<Rightarrow> sys \<Rightarrow> sys" where
  "process_settled execution out s =
     (let (execution', s1) = Processor_settled execution out s
      in process_end execution' (out_error out) s1)"

text \<open>The whole of \<^verbatim>\<open>process\<close>, for a Processor that ends with \<open>out\<close>.\<close>

definition process :: "env \<Rightarrow> outcome \<Rightarrow> ExecutionModel \<Rightarrow> JobModel option \<Rightarrow> Transaction option \<Rightarrow> sys \<Rightarrow> sys" where
  "process E out execution job transaction s =
     (let (execution1, s1) = process_begin E execution job transaction s
      in process_settled execution1 out s1)"

section \<open>The queue of events: prepare\<close>

text \<open>
  \<^verbatim>\<open>prepare\<close> from \<^verbatim>\<open>this.events.shift()\<close> to the await of \<^verbatim>\<open>createExecution\<close>.
\<close>

definition prepare_shift :: "sys \<Rightarrow> sys" where
  "prepare_shift s =
    (case events s of
       [] \<Rightarrow> emit (Log Warn ''events queue is empty, no need to prepare'') (s\<lparr>eventsCount := 0\<rparr>)
     | event # rest \<Rightarrow>
         spawn (Preparing event)
           (emit (Log Info ''preparing execution for event'')
              (s\<lparr>events := rest, eventsCount := length rest\<rparr>)))"

text \<open>
  A call of \<^verbatim>\<open>prepare\<close>, up to its first await: on sqlite it waits for the promise in
  \<^verbatim>\<open>executing\<close>, otherwise it goes on at once.
\<close>

definition prepare :: "env \<Rightarrow> sys \<Rightarrow> sys" where
  "prepare E s =
    (case executing s of
       Some p \<Rightarrow> if dialect E = ''sqlite'' then spawn (PrepareWaiting p) s else prepare_shift s
     | None \<Rightarrow> prepare_shift s)"

section \<open>The dispatcher\<close>

text \<open>
  A call of \<^verbatim>\<open>dispatch\<close>, up to the first await of the anonymous async function it
  starts: the three guards, then the head of \<^verbatim>\<open>pending\<close> handed to \<^verbatim>\<open>process\<close>, or the
  query sent to the storage. The promise of the function is stored in \<^verbatim>\<open>executing\<close>.
\<close>

definition dispatch :: "env \<Rightarrow> sys \<Rightarrow> sys" where
  "dispatch E s =
    (if \<not> ready s then emit (Log Warn ''app is not ready, new dispatching will be ignored'') s
     else if executing s \<noteq> None then
       emit (Log Warn ''workflow executing is not finished, new dispatching will be ignored'') s
     else if events s \<noteq> [] then prepare E s
     else
       (let p = promise_seq s;
            s0 = s\<lparr>promise_seq := Suc p\<rparr>
        in case pending s0 of
             nxt # rest \<Rightarrow>
               (let s1 = emit (Log Info ''pending execution ready to process'') (s0\<lparr>pending := rest\<rparr>);
                    (execution, s2) = process_begin E (fst nxt) (snd nxt) None s1
                in (spawn (Processing p execution (snd nxt)) s2)\<lparr>executing := Some p\<rparr>)
           | [] \<Rightarrow> (spawn (Polling p) s0)\<lparr>executing := Some p\<rparr>))"

text \<open>
  The query of the dispatcher: executions with \<^verbatim>\<open>status: QUEUEING\<close> whose workflow exists
  and is enabled, the workflow appended, sorted by id, the first one.
\<close>

definition queueing_rows :: "env \<Rightarrow> sys \<Rightarrow> ExecutionModel list" where
  "queueing_rows E s =
     List.map_filter
       (\<lambda>e. case find (\<lambda>w. w_id w = e_workflowId e) (workflows s) of
               None \<Rightarrow> None
             | Some w \<Rightarrow>
                 if e_status e = QUEUEING E \<and> w_enabled w then Some (e\<lparr>e_workflow := Some w\<rparr>) else None)
       (executions s)"

definition findOne_queueing :: "env \<Rightarrow> sys \<Rightarrow> ExecutionModel option" where
  "findOne_queueing E s =
     (case queueing_rows E s of
        [] \<Rightarrow> None
      | x # xs \<Rightarrow> Some (fold (\<lambda>e m. if e_id e < e_id m then e else m) xs x))"

text \<open>
  The promise \<open>p\<close> of the dispatcher resolves: every \<^verbatim>\<open>prepare\<close> that awaits it goes on.
\<close>

definition wake :: "nat \<Rightarrow> sys \<Rightarrow> sys" where
  "wake p s =
     (let n = length (filter (\<lambda>t. t = PrepareWaiting p) (tasks s));
          s1 = s\<lparr>tasks := filter (\<lambda>t. t \<noteq> PrepareWaiting p) (tasks s)\<rparr>
      in (prepare_shift ^^ n) s1)"

text \<open>
  The \<^verbatim>\<open>finally\<close> block of the async function whose promise is \<open>p\<close>; \<open>has_next\<close> says
  whether \<^verbatim>\<open>next\<close> was set. The promise resolves after it.
\<close>

definition dispatch_finally :: "env \<Rightarrow> nat \<Rightarrow> bool \<Rightarrow> sys \<Rightarrow> sys" where
  "dispatch_finally E p has_next s =
     (let s1 = s\<lparr>executing := None\<rparr>;
          s2 = (if has_next then dispatch E s1 else s1)
      in wake p s2)"

text \<open>The async function after the await of \<^verbatim>\<open>findOne\<close>.\<close>

definition dispatch_polled :: "env \<Rightarrow> nat \<Rightarrow> sys \<Rightarrow> sys" where
  "dispatch_polled E p s =
     (case findOne_queueing E s of
        Some execution \<Rightarrow>
          (let s1 = emit (Log Info ''execution fetched from db'') s;
               (execution', s2) = process_begin E execution None None s1
           in spawn (Processing p execution' None) s2)
      | None \<Rightarrow> dispatch_finally E p False s)"

text \<open>The async function after the await of \<^verbatim>\<open>process\<close>.\<close>

definition dispatch_processed :: "env \<Rightarrow> nat \<Rightarrow> ExecutionModel \<Rightarrow> outcome \<Rightarrow> sys \<Rightarrow> sys" where
  "dispatch_processed E p execution out s =
     dispatch_finally E p True (process_settled execution out s)"

text \<open>
  \<^verbatim>\<open>prepare\<close> after the await of \<^verbatim>\<open>createExecution\<close> for \<open>event\<close>. \<open>prepare_settled\<close>
  is the rest of the \<^verbatim>\<open>try\<close> block for the value \<open>r\<close> that \<^verbatim>\<open>createExecution\<close> returned,
  or the \<^verbatim>\<open>catch\<close> block for the error it threw; then comes the next \<^verbatim>\<open>prepare\<close> or
  \<^verbatim>\<open>dispatch\<close>.
\<close>

definition prepare_settled :: "env \<Rightarrow> error + ExecutionModel option \<Rightarrow> sys \<Rightarrow> sys" where
  "prepare_settled E r s =
     (case r of
        Inr (Some execution) \<Rightarrow>
          if e_status execution = QUEUEING E \<and> executing s = None \<and> pending s = []
          then s\<lparr>pending := pending s @ [(execution, None)]\<rparr>
          else s
      | Inr None \<Rightarrow> s
      | Inl err \<Rightarrow> emit (Log Err ''failed to create execution'') s)"

definition prepare_created :: "env \<Rightarrow> create_io \<Rightarrow> CachedEvent \<Rightarrow> sys \<Rightarrow> sys" where
  "prepare_created E io event s =
    (case event of (workflow, ctx, options) \<Rightarrow>
      (let (r, s1) = createExecution E io workflow ctx options s;
           s2 = prepare_settled E r s1
       in if events s2 \<noteq> [] then prepare E s2 else dispatch E s2))"

section \<open>Event intake and the entry points\<close>

text \<open>\<^verbatim>\<open>isWorkflowSync(workflow)\<close>.\<close>

definition isWorkflowSync :: "env \<Rightarrow> WorkflowModel \<Rightarrow> error + bool" where
  "isWorkflowSync E workflow =
     (case triggers E (w_type workflow) of
        None \<Rightarrow> Inl (Failure ''invalid trigger type of workflow'')
      | Some trigger \<Rightarrow> Inr (case t_sync trigger of Some b \<Rightarrow> b | None \<Rightarrow> w_sync workflow))"

text \<open>
  \<^verbatim>\<open>triggerSync(workflow, context, { deferred, ...options })\<close> up to the await of
  \<^verbatim>\<open>createExecution\<close>, which gets the options without \<^verbatim>\<open>deferred\<close>.
\<close>

definition triggerSync :: "WorkflowModel \<Rightarrow> jsobject \<Rightarrow> EventOptions \<Rightarrow> sys \<Rightarrow> sys" where
  "triggerSync workflow ctx options s = spawn (SyncCreating workflow ctx (options\<lparr>o_deferred := False\<rparr>)) s"

text \<open>
  \<^verbatim>\<open>triggerSync\<close> after the await. \<^verbatim>\<open>this.process(execution, null, options)\<close> is called
  with whatever \<^verbatim>\<open>createExecution\<close> returned; on \<^verbatim>\<open>null\<close> reading its status is a TypeError
  in the async \<^verbatim>\<open>process\<close>, so the promise returned is rejected.
\<close>

definition triggerSync_created :: "env \<Rightarrow> create_io \<Rightarrow> WorkflowModel \<Rightarrow> jsobject \<Rightarrow> EventOptions \<Rightarrow> sys \<Rightarrow> sys" where
  "triggerSync_created E io workflow ctx options s =
    (case createExecution E io workflow ctx options s of
       (Inl err, s1) \<Rightarrow> emit (Log Err ''creating execution failed'') s1
     | (Inr None, s1) \<Rightarrow> emit (Rejected (TypeError ''Cannot read properties of null'')) s1
     | (Inr (Some execution), s1) \<Rightarrow>
         (let (execution', s2) = process_begin E execution None (o_transaction options) s1
          in spawn (SyncProcessing execution') s2))"

text \<open>
  The value of a \<^verbatim>\<open>trigger\<close> call: \<^verbatim>\<open>undefined\<close>, or the promise of \<^verbatim>\<open>triggerSync\<close>.
\<close>

datatype trigger_result = Void | Promise

text \<open>
  \<^verbatim>\<open>trigger(workflow, context, options)\<close>; the context is \<open>None\<close> for \<^verbatim>\<open>null\<close> or
  \<^verbatim>\<open>undefined\<close>. \<open>Inl\<close> when \<^verbatim>\<open>isWorkflowSync\<close> throws.
\<close>

definition trigger :: "env \<Rightarrow> WorkflowModel \<Rightarrow> jsobject option \<Rightarrow> EventOptions \<Rightarrow> sys \<Rightarrow> (error + trigger_result) \<times> sys" where
  "trigger E workflow context options s =
    (if \<not> ready s then
       (Inr Void,
        emit (Log Debug ''ignored event data'')
          (emit (Log Warn ''app is not ready, event of workflow will be ignored'') s))
     else if \<not> o_manually options \<and> \<not> w_enabled workflow then
       (Inr Void, emit (Log Warn ''workflow is not enabled, event will be ignored'') s)
     else case context of
       None \<Rightarrow> (Inr Void, emit (Log Warn ''workflow event data context is null, event will be ignored'') s)
     | Some ctx \<Rightarrow>
         (case (if o_manually options then Inr True else isWorkflowSync E workflow) of
            Inl err \<Rightarrow> (Inl err, s)
          | Inr True \<Rightarrow> (Inr Promise, triggerSync workflow ctx options s)
          | Inr False \<Rightarrow>
              (let rest = options\<lparr>o_transaction := None\<rparr>;
                   s1 = s\<lparr>events := events s @ [(workflow, ctx, rest)]\<rparr>;
                   s2 = s1\<lparr>eventsCount := length (events s1)\<rparr>;
                   s3 = emit (Log Debug ''event data'') (emit (Log Info ''new event triggered'') s2)
               in if length (events s3) > 1 then (Inr Void, s3)
                  else (Inr Void, spawn PrepareTimer s3))))"

text \<open>
  \<^verbatim>\<open>resume(job)\<close>; the execution of the job is read from the table when it is not attached,
  and a job whose execution is gone rejects the call.
\<close>

definition resume :: "env \<Rightarrow> JobModel \<Rightarrow> sys \<Rightarrow> sys" where
  "resume E job s =
    (case (case j_execution job of
             Some e \<Rightarrow> Some e
           | None \<Rightarrow> find (\<lambda>e. e_id e = j_executionId job) (executions s)) of
       None \<Rightarrow> emit (Rejected (TypeError ''Cannot read properties of null'')) s
     | Some execution \<Rightarrow>
         (let job' = job\<lparr>j_execution := Some execution\<rparr>;
              s1 = emit (Log Info ''execution resuming from job added to pending list'') s
          in dispatch E (s1\<lparr>pending := pending s1 @ [(execution, Some job')]\<rparr>)))"

text \<open>\<^verbatim>\<open>start(execution)\<close>.\<close>

definition start :: "env \<Rightarrow> ExecutionModel \<Rightarrow> sys \<Rightarrow> sys" where
  "start E execution s =
    (if e_status execution \<noteq> STARTED E then s
     else dispatch E (s\<lparr>pending := pending s @ [(execution, None)]\<rparr>))"

section \<open>Life cycle\<close>

text \<open>
  The \<^verbatim>\<open>afterStart\<close> listener up to the await of the enabled workflows, and after it.
\<close>

definition afterStart :: "sys \<Rightarrow> sys" where
  "afterStart s = spawn Starting (s\<lparr>ready := True\<rparr>)"

definition afterStart_loaded :: "env \<Rightarrow> sys \<Rightarrow> sys" where
  "afterStart_loaded E s =
     (let s1 = fold (\<lambda>w. toggle E w (Some True) True None) (filter w_enabled (workflows s)) s
      in dispatch E (s1\<lparr>checker := True\<rparr>))"

text \<open>
  The \<^verbatim>\<open>beforeStop\<close> listener; what it awaits (the drain of the events, the promise in
  \<^verbatim>\<open>executing\<close>) goes on as the tasks of the state.
\<close>

definition beforeStop :: "env \<Rightarrow> sys \<Rightarrow> sys" where
  "beforeStop E s =
     (let s1 = fold (\<lambda>w. toggle E w (Some False) True None) (map snd (enabledCache s)) s;
          s2 = s1\<lparr>ready := False\<rparr>;
          s3 = (if events s2 \<noteq> [] then prepare E s2 else s2)
      in s3\<lparr>checker := False\<rparr>)"

section \<open>The plugin as a transition system\<close>

text \<open>
  What can happen next: a call from outside, or the settling of an await of the task at
  position \<open>k\<close>. The answers of the outside (the uuid and the insert of a creation, the
  outcome of a Processor run) come with the action.
\<close>

datatype action =
    AfterStart
  | StartLoaded nat
  | BeforeStop
  | CheckerTick
  | Save WorkflowModel "Transaction option"
  | TriggerEvent WorkflowModel "jsobject option" EventOptions
  | Resume JobModel
  | Start ExecutionModel
  | TimerFired nat
  | Created nat create_io
  | Polled nat
  | Processed nat outcome

definition task_at :: "nat \<Rightarrow> sys \<Rightarrow> task option" where
  "task_at k s = (if k < length (tasks s) then Some (tasks s ! k) else None)"

definition drop_task :: "nat \<Rightarrow> sys \<Rightarrow> sys" where
  "drop_task k s = s\<lparr>tasks := remove_nth k (tasks s)\<rparr>"

fun step :: "env \<Rightarrow> action \<Rightarrow> sys \<Rightarrow> sys" where
  "step E AfterStart s = afterStart s"
| "step E (StartLoaded k) s =
     (case task_at k s of Some Starting \<Rightarrow> afterStart_loaded E (drop_task k s) | _ \<Rightarrow> s)"
| "step E BeforeStop s = beforeStop E s"
| "step E CheckerTick s = (if checker s then dispatch E s else s)"
| "step E (Save instance transaction) s = save E instance transaction s"
| "step E (TriggerEvent workflow context options) s = snd (trigger E workflow context options s)"
| "step E (Resume job) s = resume E job s"
| "step E (Start execution) s = start E execution s"
| "step E (TimerFired k) s =
     (case task_at k s of Some PrepareTimer \<Rightarrow> prepare E (drop_task k s) | _ \<Rightarrow> s)"
| "step E (Created k io) s =
     (case task_at k s of
        Some (Preparing event) \<Rightarrow> prepare_created E io event (drop_task k s)
      | Some (SyncCreating workflow ctx options) \<Rightarrow>
          triggerSync_created E io workflow ctx options (drop_task k s)
      | _ \<Rightarrow> s)"
| "step E (Polled k) s =
     (case task_at k s of Some (Polling p) \<Rightarrow> dispatch_polled E p (drop_task k s) | _ \<Rightarrow> s)"
| "step E (Processed k out) s =
     (case task_at k s of
        Some (Processing p execution job) \<Rightarrow> dispatch_processed E p execution out (drop_task k s)
      | Some (SyncProcessing execution) \<Rightarrow> process_settled execution out (drop_task k s)
      | _ \<Rightarrow> s)"

fun run :: "env \<Rightarrow> action list \<Rightarrow> sys \<Rightarrow> sys" where
  "run E [] s = s"
| "run E (a # as) s = run E as (step E a s)"

text \<open>
  The plugin as constructed, over the tables as the storage holds them; the next
  execution id is above every id in use.
\<close>

definition init :: "WorkflowModel list \<Rightarrow> ExecutionModel list \<Rightarrow> sys" where
  "init ws es =
     \<lparr>ready = False, executing = None, pending = [], events = [], eventsCount = 0,
      enabledCache = [], checker = False, workflows = ws, executions = es, tasks = [],
      effects = [], tx_seq = 0, exec_seq = Suc (fold max (map e_id es) 0), promise_seq = 0\<rparr>"

section \<open>A concrete installation\<close>

text \<open>
  One registered trigger type whose \<^verbatim>\<open>validateEvent\<close> rejects the empty context object,
  the status constants \<^verbatim>\<open>null\<close> and \<^verbatim>\<open>0\<close>, one enabled workflow and an execution of it.
  The theorems below are instantiated on these.
\<close>

definition trigger0 :: Trigger where
  "trigger0 = \<lparr>t_sync = None, validateEvent = (\<lambda>w c opts. Inr (c \<noteq> []))\<rparr>"

definition env0 :: env where
  "env0 = \<lparr>QUEUEING = None, STARTED = Some 0, dialect = ''postgres'', main_sequelize = 0,
            triggers = (\<lambda>t. if t = ''collection'' then Some trigger0 else None)\<rparr>"

definition wf0 :: WorkflowModel where
  "wf0 = \<lparr>w_id = 1, w_key = ''k1'', w_type = ''collection'', w_enabled = True,
           w_current = Some True, w_sync = False, w_executed = 0, w_allExecuted = 0,
           w_options = Some \<lparr>deleteExecutionOnStatus = Some [Some 1, Some 0]\<rparr>,
           w_config = [], w_previous_config = None\<rparr>"

definition opts0 :: EventOptions where
  "opts0 = \<lparr>o_eventKey = None, o_deferred = False, o_manually = False, o_transaction = None\<rparr>"

definition ex0 :: ExecutionModel where
  "ex0 = \<lparr>e_id = 7, e_workflowId = 1, e_key = ''k1'', e_eventKey = ''u0'', e_context = [],
           e_status = Some 0, e_workflow = Some wf0\<rparr>"

definition io0 :: create_io where
  "io0 = \<lparr>io_uuid = ''u1'', io_insert_error = None\<rparr>"

definition is_log :: "effect \<Rightarrow> bool" where
  "is_log x = (case x of Log l m \<Rightarrow> True | _ \<Rightarrow> False)"

definition row0 :: ExecutionModel where
  "row0 = ex0\<lparr>e_workflow := None\<rparr>"

definition ctx0 :: jsobject where
  "ctx0 = [(''x'', 1)]"

text \<open>A second version of the workflow, saved enabled; an insert the storage refuses;
  a Processor run that suspends with status \<^verbatim>\<open>0\<close>, and one that throws.\<close>

definition wf1 :: WorkflowModel where
  "wf1 = wf0\<lparr>w_id := 2, w_current := None\<rparr>"

definition io_refused :: create_io where
  "io_refused = \<lparr>io_uuid = ''u2'', io_insert_error = Some ''unique constraint''\<rparr>"

definition suspended0 :: outcome where
  "suspended0 = \<lparr>out_status = Some 0, out_workflow = Some wf0, out_error = None\<rparr>"

definition thrown0 :: outcome where
  "thrown0 = \<lparr>out_status = Some 0, out_workflow = Some wf0, out_error = Some ''instruction failed''\<rparr>"

text \<open>
  The plugin after \<^verbatim>\<open>afterStart\<close> and \<^verbatim>\<open>start(ex0)\<close>: the dispatcher is processing \<open>ex0\<close>.
\<close>

definition busy0 :: sys where
  "busy0 = run env0 [AfterStart, Start ex0] (init [wf0] [row0])"

text \<open>
  States for the instances below: the plugin ready with \<open>ex0\<close> pending; a storage with two
  queueing executions and a started one; the plugin ready with one event queued.
\<close>

definition idle0 :: sys where
  "idle0 = (init [wf0] [row0])\<lparr>ready := True, pending := [(ex0, None)]\<rparr>"

definition stored0 :: sys where
  "stored0 = init [wf0] [row0\<lparr>e_id := 9, e_status := None\<rparr>, row0, row0\<lparr>e_id := 3, e_status := None\<rparr>]"

definition queued0 :: sys where
  "queued0 = (init [wf0] [])\<lparr>ready := True, events := [(wf0, ctx0, opts0)]\<rparr>"

text \<open>
  A storage with two queueing executions; a plugin that is ready over a storage in which
  the execution \<open>7\<close> has ended with status \<^verbatim>\<open>1\<close>; and a job of that execution that arrives
  with the execution attached as it was read while it was still queueing.
\<close>

definition stored1 :: sys where
  "stored1 = init [wf0] [row0\<lparr>e_status := None\<rparr>, row0\<lparr>e_id := 3, e_status := None\<rparr>]"

definition ended0 :: sys where
  "ended0 = run env0 [AfterStart] (init [wf0] [row0\<lparr>e_status := Some 1\<rparr>])"

definition job0 :: JobModel where
  "job0 = \<lparr>j_id = 4, j_executionId = 7, j_execution = Some (ex0\<lparr>e_status := None\<rparr>)\<rparr>"

section \<open>Notions the statements use\<close>

text \<open>
  \<^verbatim>\<open>createExecution\<close> reuses the transaction of its caller when there is one and it belongs
  to the main connection (\<^verbatim>\<open>sameTransaction\<close>); otherwise it opens its own.
\<close>

definition reuses :: "env \<Rightarrow> EventOptions \<Rightarrow> bool" where
  "reuses E options =
     (case o_transaction options of Some t \<Rightarrow> tx_sequelize t = main_sequelize E | None \<Rightarrow> False)"

text \<open>
  The condition under which \<^verbatim>\<open>process\<close> destroys the row after a Processor run that
  returned: the status is truthy, and the attached workflow lists it.
\<close>

definition deletes :: "outcome \<Rightarrow> bool" where
  "deletes out = (truthy (out_status out) \<and>
     (case out_workflow out of None \<Rightarrow> False | Some w \<Rightarrow> delete_on_status w (out_status out)))"

text \<open>
  A row the dispatcher's query is looking for: its status is QUEUEING and its workflow
  exists and is enabled.
\<close>

definition eligible :: "env \<Rightarrow> sys \<Rightarrow> ExecutionModel \<Rightarrow> bool" where
  "eligible E s e =
     (e_status e = QUEUEING E \<and>
      (case find (\<lambda>w. w_id w = e_workflowId e) (workflows s) of
         Some w \<Rightarrow> w_enabled w
       | None \<Rightarrow> False))"

text \<open>
  The promise of a task that is the dispatcher's async function; the tasks of the
  dispatcher in a state; and the exclusion property: the async functions of the dispatcher
  in flight are exactly the one whose promise \<^verbatim>\<open>executing\<close> holds.
\<close>

fun iife :: "task \<Rightarrow> nat option" where
  "iife (Polling p) = Some p"
| "iife (Processing p e j) = Some p"
| "iife t = None"

definition dispatcher_tasks :: "sys \<Rightarrow> task list" where
  "dispatcher_tasks s = filter (\<lambda>t. iife t \<noteq> None) (tasks s)"

definition exclusive :: "sys \<Rightarrow> bool" where
  "exclusive s = (map iife (dispatcher_tasks s) = (case executing s of None \<Rightarrow> [] | Some p \<Rightarrow> [Some p]))"

text \<open>
  A task that is a \<^verbatim>\<open>process\<close> call in flight, whoever made the call; and one that the
  dispatcher made.
\<close>

fun process_call :: "task \<Rightarrow> bool" where
  "process_call (Processing p e j) = True"
| "process_call (SyncProcessing e) = True"
| "process_call t = False"

fun dispatched_process_call :: "task \<Rightarrow> bool" where
  "dispatched_process_call (Processing p e j) = True"
| "dispatched_process_call t = False"

text \<open>
  An action that settles the await of the dispatcher's async function: the answer of its
  query, or the end of its \<^verbatim>\<open>process\<close> call. Its \<^verbatim>\<open>finally\<close> block runs in that step or,
  after a query that found a row, in the step that ends the \<^verbatim>\<open>process\<close> call.
\<close>

fun settles :: "action \<Rightarrow> sys \<Rightarrow> bool" where
  "settles (Polled k) s = (case task_at k s of Some (Polling p) \<Rightarrow> True | _ \<Rightarrow> False)"
| "settles (Processed k out) s = (case task_at k s of Some (Processing p e j) \<Rightarrow> True | _ \<Rightarrow> False)"
| "settles a s = False"

text \<open>
  A transition that keeps the exclusion property and, when an operation of the dispatcher
  is in flight, leaves it and \<^verbatim>\<open>executing\<close> alone.
\<close>

definition undisturbed :: "sys \<Rightarrow> sys \<Rightarrow> bool" where
  "undisturbed s s' =
     ((exclusive s \<longrightarrow> exclusive s') \<and>
      (executing s \<noteq> None \<longrightarrow> executing s' = executing s \<and> dispatcher_tasks s' = dispatcher_tasks s))"

text \<open>
  From \<open>s\<close> to \<open>s'\<close> the execution ids only grow, and every row of \<open>s'\<close> is new (its id
  was not yet given out in \<open>s\<close>) or has the id of a row of \<open>s\<close> and, when its status
  satisfies \<open>Q\<close>, that row's did too. With \<open>Q\<close> "is QUEUEING": no row was put back to
  QUEUEING.
\<close>

definition forward :: "(status \<Rightarrow> bool) \<Rightarrow> sys \<Rightarrow> sys \<Rightarrow> bool" where
  "forward Q s s' =
     (exec_seq s \<le> exec_seq s' \<and>
      (\<forall>e'\<in>set (executions s').
          (exec_seq s \<le> e_id e' \<and> e_id e' < exec_seq s') \<or>
          (\<exists>e\<in>set (executions s). e_id e = e_id e' \<and> (Q (e_status e') \<longrightarrow> Q (e_status e)))))"

definition ids_below :: "sys \<Rightarrow> bool" where
  "ids_below s = (\<forall>e\<in>set (executions s). e_id e < exec_seq s)"

text \<open>
  At most one row per key has \<^verbatim>\<open>current = true\<close>; and an instance that is saved as the
  current version: it is enabled, or its \<^verbatim>\<open>current\<close> is already true.
\<close>

definition one_current :: "WorkflowModel list \<Rightarrow> bool" where
  "one_current rows =
     (\<forall>a\<in>set rows. \<forall>b\<in>set rows.
        w_key a = w_key b \<and> w_current a = Some True \<and> w_current b = Some True \<longrightarrow> w_id a = w_id b)"

definition becomes_current :: "WorkflowModel \<Rightarrow> bool" where
  "becomes_current instance = (w_enabled instance \<or> w_current instance = Some True)"

text \<open>
  What the rows say about versions: primary key, key and \<^verbatim>\<open>current\<close>. A table is in order
  when its primary keys are distinct and at most one row per key is current.
\<close>

definition current_view :: "WorkflowModel list \<Rightarrow> (ID \<times> string \<times> bool option) list" where
  "current_view rows = map (\<lambda>r. (w_id r, w_key r, w_current r)) rows"

definition table_ok :: "WorkflowModel list \<Rightarrow> bool" where
  "table_ok rows = (distinct (map w_id rows) \<and> one_current rows)"

section \<open>Creating an execution: a rejected event\<close>

lemma emit_fields [simp]:
  "ready (emit x s) = ready s" "executing (emit x s) = executing s"
  "pending (emit x s) = pending s" "events (emit x s) = events s"
  "eventsCount (emit x s) = eventsCount s" "enabledCache (emit x s) = enabledCache s"
  "checker (emit x s) = checker s" "workflows (emit x s) = workflows s"
  "executions (emit x s) = executions s" "tasks (emit x s) = tasks s"
  "effects (emit x s) = effects s @ [x]" "tx_seq (emit x s) = tx_seq s"
  "exec_seq (emit x s) = exec_seq s" "promise_seq (emit x s) = promise_seq s"
  by (simp_all add: emit_def)

lemma spawn_fields [simp]:
  "ready (spawn t s) = ready s" "executing (spawn t s) = executing s"
  "pending (spawn t s) = pending s" "events (spawn t s) = events s"
  "eventsCount (spawn t s) = eventsCount s" "enabledCache (spawn t s) = enabledCache s"
  "checker (spawn t s) = checker s" "workflows (spawn t s) = workflows s"
  "executions (spawn t s) = executions s" "tasks (spawn t s) = tasks s @ [t]"
  "effects (spawn t s) = effects s" "tx_seq (spawn t s) = tx_seq s"
  "exec_seq (spawn t s) = exec_seq s" "promise_seq (spawn t s) = promise_seq s"
  by (simp_all add: spawn_def)

lemma useDataSourceTransaction_create:
  "useDataSourceTransaction E tr True s =
     (if (case tr of Some t \<Rightarrow> tx_sequelize t = main_sequelize E | None \<Rightarrow> False) then (tr, s)
      else (Some \<lparr>tx_id = tx_seq s, tx_sequelize = main_sequelize E\<rparr>,
            emit (TxBegin \<lparr>tx_id = tx_seq s, tx_sequelize = main_sequelize E\<rparr>) (s\<lparr>tx_seq := Suc (tx_seq s)\<rparr>)))"
  by (simp add: useDataSourceTransaction_def Let_def)

lemma rejected_reuses_transaction:
  assumes "triggers E (w_type workflow) = Some tr"
    and "validateEvent tr workflow ctx (options\<lparr>o_transaction := Some t\<rparr>) = Inr False"
    and "o_transaction options = Some t" and "tx_sequelize t = main_sequelize E"
  shows "createExecution E io workflow ctx options s = (Inr None, s)"
  using assms by (simp add: createExecution_def useDataSourceTransaction_create)

lemma rejected_own_transaction:
  assumes "triggers E (w_type workflow) = Some tr"
    and "validateEvent tr workflow ctx
           (options\<lparr>o_transaction := Some \<lparr>tx_id = tx_seq s, tx_sequelize = main_sequelize E\<rparr>\<rparr>) = Inr False"
    and "\<not> reuses E options"
  shows "createExecution E io workflow ctx options s =
    (Inr None, s\<lparr>tx_seq := Suc (tx_seq s),
                  effects := effects s @ [TxBegin \<lparr>tx_id = tx_seq s, tx_sequelize = main_sequelize E\<rparr>,
                                          TxCommit \<lparr>tx_id = tx_seq s, tx_sequelize = main_sequelize E\<rparr>]\<rparr>)"
  using assms
  by (cases "o_transaction options")
     (auto simp add: createExecution_def useDataSourceTransaction_create reuses_def emit_def)

text \<open>
  C7. When the trigger's \<^verbatim>\<open>validateEvent\<close>, called with the options and the transaction
  in use, returns false, \<^verbatim>\<open>createExecution\<close> returns
  \<^verbatim>\<open>null\<close> without throwing; the tables of executions and workflows (so the counters) and
  the next execution id are as before; and the only calls made are the opening and the
  commit of the transaction the function opened itself. When it reuses the transaction of
  its caller it makes no call at all: the commit is left to the caller.
\<close>

theorem createExecution_rejected:
  assumes "triggers E (w_type workflow) = Some tr"
    and "validateEvent tr workflow ctx
           (options\<lparr>o_transaction := fst (useDataSourceTransaction E (o_transaction options) True s)\<rparr>)
         = Inr False"
  shows "fst (createExecution E io workflow ctx options s) = Inr None \<and>
         executions (snd (createExecution E io workflow ctx options s)) = executions s \<and>
         workflows (snd (createExecution E io workflow ctx options s)) = workflows s \<and>
         exec_seq (snd (createExecution E io workflow ctx options s)) = exec_seq s \<and>
         effects (snd (createExecution E io workflow ctx options s)) =
           effects s @
           (if reuses E options then []
            else [TxBegin \<lparr>tx_id = tx_seq s, tx_sequelize = main_sequelize E\<rparr>,
                  TxCommit \<lparr>tx_id = tx_seq s, tx_sequelize = main_sequelize E\<rparr>])"
proof (cases "reuses E options")
  case True
  then obtain t where t: "o_transaction options = Some t" "tx_sequelize t = main_sequelize E"
    by (auto simp: reuses_def split: option.splits)
  with assms(2) have "validateEvent tr workflow ctx (options\<lparr>o_transaction := Some t\<rparr>) = Inr False"
    by (simp add: useDataSourceTransaction_create)
  from rejected_reuses_transaction [OF assms(1) this t] True show ?thesis by simp
next
  case False
  then have "\<not> (case o_transaction options of Some t \<Rightarrow> tx_sequelize t = main_sequelize E | None \<Rightarrow> False)"
    by (simp add: reuses_def)
  with assms(2) have "validateEvent tr workflow ctx
      (options\<lparr>o_transaction := Some \<lparr>tx_id = tx_seq s, tx_sequelize = main_sequelize E\<rparr>\<rparr>) = Inr False"
    by (simp add: useDataSourceTransaction_create)
  from rejected_own_transaction [OF assms(1) this False] False show ?thesis by simp
qed

theorem createExecution_rejected_witness:
  "triggers env0 (w_type wf0) = Some trigger0 \<and>
   validateEvent trigger0 wf0 [] (opts0\<lparr>o_transaction := Some \<lparr>tx_id = 0, tx_sequelize = 0\<rparr>\<rparr>) = Inr False \<and>
   fst (createExecution env0 io0 wf0 [] opts0 (init [wf0] [])) = Inr None \<and>
   executions (snd (createExecution env0 io0 wf0 [] opts0 (init [wf0] []))) = [] \<and>
   workflows (snd (createExecution env0 io0 wf0 [] opts0 (init [wf0] []))) = [wf0] \<and>
   effects (snd (createExecution env0 io0 wf0 [] opts0 (init [wf0] []))) =
     [TxBegin \<lparr>tx_id = 0, tx_sequelize = 0\<rparr>, TxCommit \<lparr>tx_id = 0, tx_sequelize = 0\<rparr>]"
proof -
  have t: "triggers env0 (w_type wf0) = Some trigger0" by (simp add: env0_def wf0_def)
  have v: "validateEvent trigger0 wf0 [] opts = Inr False" for opts by (simp add: trigger0_def)
  have r: "\<not> reuses env0 opts0" by (simp add: reuses_def opts0_def)
  from createExecution_rejected [OF t v, where io = io0 and options = opts0 and s = "init [wf0] []"] r t v
  show ?thesis by (simp add: init_def env0_def)
qed

section \<open>The end of process\<close>

lemma process_begin_fields [simp]:
  "ready (snd (process_begin E e j tr s)) = ready s"
  "executing (snd (process_begin E e j tr s)) = executing s"
  "pending (snd (process_begin E e j tr s)) = pending s"
  "events (snd (process_begin E e j tr s)) = events s"
  "tasks (snd (process_begin E e j tr s)) = tasks s"
  "workflows (snd (process_begin E e j tr s)) = workflows s"
  "exec_seq (snd (process_begin E e j tr s)) = exec_seq s"
  "promise_seq (snd (process_begin E e j tr s)) = promise_seq s"
  "checker (snd (process_begin E e j tr s)) = checker s"
  "e_id (fst (process_begin E e j tr s)) = e_id e"
  by (simp_all add: process_begin_def Let_def split: prod.splits)

lemma process_begin_executions:
  "executions (snd (process_begin E e j tr s)) =
     (if e_status e = QUEUEING E then set_status (e_id e) (STARTED E) (executions s) else executions s)"
  by (simp add: process_begin_def Let_def)

lemma process_begin_effects:
  "effects (snd (process_begin E e j tr s)) =
     effects s @
     (if e_status e = QUEUEING E then [ExecutionUpdate (e_id e) (STARTED E) tr] else []) @
     [Log Info (if j \<noteq> None then ''execution resuming...'' else ''execution starting...''),
      (case j of Some jb \<Rightarrow> ProcessorResume (e_id e) (j_id jb) | None \<Rightarrow> ProcessorStart (e_id e))]"
  by (simp add: process_begin_def Let_def)

lemma process_begin_status:
  "e_status (fst (process_begin E e j tr s)) = (if e_status e = QUEUEING E then STARTED E else e_status e)"
  by (simp add: process_begin_def Let_def)

lemma process_settled_returned:
  assumes "out_error out = None"
  shows "process_settled e out s =
     (if deletes out then
        (s\<lparr>executions := filter (\<lambda>r. e_id r \<noteq> e_id e) (set_status (e_id e) (out_status out) (executions s)),
           effects := effects s @ [Log Info ''execution finished with status'', ExecutionDestroy (e_id e)]\<rparr>)
      else if truthy (out_status out) \<and> out_workflow out = None then
        (s\<lparr>executions := set_status (e_id e) (out_status out) (executions s),
           effects := effects s @ [Log Info ''execution finished with status'', Log Err ''execution error'']\<rparr>)
      else
        (s\<lparr>executions := set_status (e_id e) (out_status out) (executions s),
           effects := effects s @ [Log Info ''execution finished with status'']\<rparr>))"
  using assms
  by (cases "out_workflow out")
     (simp_all add: process_settled_def Processor_settled_def process_end_def deletes_def emit_def Let_def)

lemma process_settled_thrown:
  assumes "out_error out = Some msg"
  shows "process_settled e out s =
     s\<lparr>executions := set_status (e_id e) (out_status out) (executions s),
       effects := effects s @ [Log Err ''execution error'']\<rparr>"
  using assms
  by (simp add: process_settled_def Processor_settled_def process_end_def emit_def)

lemma set_status_ids [simp]: "map e_id (set_status i st rows) = map e_id rows"
  by (induction rows) (simp_all add: set_status_def)

text \<open>
  C9, as the code has it. After a Processor run that returned, \<^verbatim>\<open>process\<close> destroys the
  row if and only if the final status is truthy (neither \<^verbatim>\<open>null\<close> nor \<^verbatim>\<open>0\<close>) and the
  workflow attached to the execution lists it in \<^verbatim>\<open>deleteExecutionOnStatus\<close>; otherwise
  the table keeps the rows it had.
\<close>

theorem process_destroy_iff:
  assumes "out_error out = None"
  shows "(ExecutionDestroy (e_id execution) \<in>
            set (drop (length (effects s)) (effects (process E out execution job tr s)))) =
         (truthy (out_status out) \<and>
          (\<exists>w. out_workflow out = Some w \<and> delete_on_status w (out_status out))) \<and>
         (if truthy (out_status out) \<and>
             (\<exists>w. out_workflow out = Some w \<and> delete_on_status w (out_status out))
          then e_id execution \<notin> set (map e_id (executions (process E out execution job tr s)))
          else map e_id (executions (process E out execution job tr s)) = map e_id (executions s))"
proof -
  let ?b = "process_begin E execution job tr s"
  have d: "deletes out = (truthy (out_status out) \<and>
          (\<exists>w. out_workflow out = Some w \<and> delete_on_status w (out_status out)))"
    by (cases "out_workflow out") (simp_all add: deletes_def)
  have p: "process E out execution job tr s = process_settled (fst ?b) out (snd ?b)"
    by (simp add: process_def split: prod.splits)
  have ids: "map e_id (executions (snd ?b)) = map e_id (executions s)"
    by (simp add: process_begin_executions)
  show ?thesis
  proof (cases "deletes out")
    case True
    have "e_id execution \<notin> set (map e_id (filter (\<lambda>r. e_id r \<noteq> e_id execution) rows))" for rows
      by auto
    with True d show ?thesis
      unfolding p by (simp add: process_settled_returned [OF assms] process_begin_effects del: set_map)
  next
    case False
    with d ids show ?thesis
      unfolding p by (auto simp add: process_settled_returned [OF assms] process_begin_effects split: option.splits)
  qed
qed

theorem process_destroy_iff_witness:
  "out_error (suspended0\<lparr>out_status := Some 1\<rparr>) = None \<and>
   ExecutionDestroy 7 \<in> set (effects (process env0 (suspended0\<lparr>out_status := Some 1\<rparr>) ex0 None None (init [wf0] [row0]))) \<and>
   7 \<notin> set (map e_id (executions (process env0 (suspended0\<lparr>out_status := Some 1\<rparr>) ex0 None None (init [wf0] [row0]))))"
proof -
  have e: "out_error (suspended0\<lparr>out_status := Some 1\<rparr>) = None" by (simp add: suspended0_def)
  have d: "truthy (out_status (suspended0\<lparr>out_status := Some 1\<rparr>)) \<and>
     (\<exists>w. out_workflow (suspended0\<lparr>out_status := Some 1\<rparr>) = Some w \<and>
          delete_on_status w (out_status (suspended0\<lparr>out_status := Some 1\<rparr>)))"
    by (simp add: suspended0_def truthy_def delete_on_status_def wf0_def)
  have i: "e_id ex0 = 7" "effects (init [wf0] [row0]) = []" by (simp_all add: ex0_def init_def)
  from process_destroy_iff [OF e, of ex0 "init [wf0] [row0]" env0 None None] d e i
  show ?thesis by (simp del: set_map)
qed

text \<open>
  C9 as stated fails on a falsy status: the Processor returns with status \<^verbatim>\<open>0\<close>, the
  workflow lists \<^verbatim>\<open>0\<close> in \<^verbatim>\<open>deleteExecutionOnStatus\<close>, and the row is kept, because
  \<^verbatim>\<open>execution.status && ...\<close> is false.
\<close>

theorem process_keeps_status_zero_counterexample:
  "out_error suspended0 = None \<and> out_workflow suspended0 = Some wf0 \<and>
   delete_on_status wf0 (out_status suspended0) \<and>
   executions (process env0 suspended0 ex0 None None (init [wf0] [row0])) = [row0]"
  by (simp add: suspended0_def delete_on_status_def wf0_def process_def process_begin_def
      process_settled_def Processor_settled_def process_end_def truthy_def env0_def ex0_def row0_def
      init_def emit_def set_status_def)

section \<open>The selection of the dispatcher\<close>

lemma prepare_shift_fields [simp]:
  "ready (prepare_shift s) = ready s" "executing (prepare_shift s) = executing s"
  "pending (prepare_shift s) = pending s" "enabledCache (prepare_shift s) = enabledCache s"
  "checker (prepare_shift s) = checker s" "workflows (prepare_shift s) = workflows s"
  "executions (prepare_shift s) = executions s" "tx_seq (prepare_shift s) = tx_seq s"
  "exec_seq (prepare_shift s) = exec_seq s" "promise_seq (prepare_shift s) = promise_seq s"
  "events (prepare_shift s) = tl (events s)"
  by (simp_all add: prepare_shift_def split: list.splits)

lemma prepare_shift_tasks:
  "tasks (prepare_shift s) = tasks s @ (case events s of [] \<Rightarrow> [] | ev # rest \<Rightarrow> [Preparing ev])"
  by (simp add: prepare_shift_def split: list.splits)

lemma prepare_fields [simp]:
  "ready (prepare E s) = ready s" "executing (prepare E s) = executing s"
  "pending (prepare E s) = pending s" "enabledCache (prepare E s) = enabledCache s"
  "checker (prepare E s) = checker s" "workflows (prepare E s) = workflows s"
  "executions (prepare E s) = executions s" "tx_seq (prepare E s) = tx_seq s"
  "exec_seq (prepare E s) = exec_seq s" "promise_seq (prepare E s) = promise_seq s"
  by (simp_all add: prepare_def split: option.splits)

lemma prepare_idle: "executing s = None \<Longrightarrow> prepare E s = prepare_shift s"
  by (simp add: prepare_def)

lemma prepare_events:
  "events (prepare E s) = events s \<or> events (prepare E s) = tl (events s)"
  by (simp add: prepare_def split: option.splits)

lemma funpow_prepare_shift_fields [simp]:
  "ready ((prepare_shift ^^ n) s) = ready s" "executing ((prepare_shift ^^ n) s) = executing s"
  "pending ((prepare_shift ^^ n) s) = pending s" "enabledCache ((prepare_shift ^^ n) s) = enabledCache s"
  "checker ((prepare_shift ^^ n) s) = checker s" "workflows ((prepare_shift ^^ n) s) = workflows s"
  "executions ((prepare_shift ^^ n) s) = executions s" "tx_seq ((prepare_shift ^^ n) s) = tx_seq s"
  "exec_seq ((prepare_shift ^^ n) s) = exec_seq s" "promise_seq ((prepare_shift ^^ n) s) = promise_seq s"
  by (induction n) simp_all

lemma wake_fields [simp]:
  "ready (wake p s) = ready s" "executing (wake p s) = executing s"
  "pending (wake p s) = pending s" "enabledCache (wake p s) = enabledCache s"
  "checker (wake p s) = checker s" "workflows (wake p s) = workflows s"
  "executions (wake p s) = executions s" "tx_seq (wake p s) = tx_seq s"
  "exec_seq (wake p s) = exec_seq s" "promise_seq (wake p s) = promise_seq s"
  by (simp_all add: wake_def Let_def)

lemma dispatch_not_ready:
  "\<not> ready s \<Longrightarrow> dispatch E s = emit (Log Warn ''app is not ready, new dispatching will be ignored'') s"
  by (simp add: dispatch_def)

lemma dispatch_executing:
  "ready s \<Longrightarrow> executing s \<noteq> None \<Longrightarrow>
   dispatch E s = emit (Log Warn ''workflow executing is not finished, new dispatching will be ignored'') s"
  by (simp add: dispatch_def)

lemma dispatch_events:
  "ready s \<Longrightarrow> executing s = None \<Longrightarrow> events s \<noteq> [] \<Longrightarrow> dispatch E s = prepare E s"
  by (simp add: dispatch_def)

lemma process_begin_fst:
  "fst (process_begin E e j tr s) = (if e_status e = QUEUEING E then e\<lparr>e_status := STARTED E\<rparr> else e)"
  by (simp add: process_begin_def Let_def)

lemma dispatch_pending:
  assumes "ready s" "executing s = None" "events s = []" "pending s = (e, j) # rest"
  shows "dispatch E s =
    (spawn (Processing (promise_seq s) (fst (process_begin E e j None s)) j)
       (snd (process_begin E e j None
          (emit (Log Info ''pending execution ready to process'')
             (s\<lparr>promise_seq := Suc (promise_seq s), pending := rest\<rparr>)))))\<lparr>executing := Some (promise_seq s)\<rparr>"
  using assms by (simp add: dispatch_def Let_def case_prod_beta process_begin_fst)

lemma dispatch_poll:
  assumes "ready s" "executing s = None" "events s = []" "pending s = []"
  shows "dispatch E s =
    (spawn (Polling (promise_seq s)) (s\<lparr>promise_seq := Suc (promise_seq s)\<rparr>))\<lparr>executing := Some (promise_seq s)\<rparr>"
  using assms by (simp add: dispatch_def Let_def)

lemma set_map_filter: "set (List.map_filter f xs) = {y. \<exists>x\<in>set xs. f x = Some y}"
  by (induction xs) (auto simp: List.map_filter_simps split: option.splits)

lemma eligible_iff:
  "eligible E s e =
     (e_status e = QUEUEING E \<and>
      (\<exists>w. find (\<lambda>w. w_id w = e_workflowId e) (workflows s) = Some w \<and> w_enabled w))"
  by (simp add: eligible_def split: option.splits)

lemma queueing_rows_set:
  "set (queueing_rows E s) =
     {e\<lparr>e_workflow := find (\<lambda>w. w_id w = e_workflowId e) (workflows s)\<rparr> | e.
        e \<in> set (executions s) \<and> eligible E s e}"
  unfolding queueing_rows_def set_map_filter
  by (auto simp: eligible_iff split: option.splits if_splits)

lemma fold_least_in:
  "fold (\<lambda>e m. if e_id e < e_id m then e else m) xs x \<in> set (x # xs)"
  by (induction xs arbitrary: x) auto

lemma fold_least_acc:
  "e_id (fold (\<lambda>e m. if e_id e < e_id m then e else m) xs x) \<le> e_id x"
proof (induction xs arbitrary: x)
  case Nil
  show ?case by simp
next
  case (Cons a xs)
  have "e_id (fold (\<lambda>e m. if e_id e < e_id m then e else m) xs (if e_id a < e_id x then a else x))
          \<le> e_id (if e_id a < e_id x then a else x)"
    by (rule Cons.IH)
  also have "\<dots> \<le> e_id x" by simp
  finally show ?case by simp
qed

lemma fold_least_le:
  "y \<in> set (x # xs) \<Longrightarrow> e_id (fold (\<lambda>e m. if e_id e < e_id m then e else m) xs x) \<le> e_id y"
proof (induction xs arbitrary: x)
  case Nil
  then show ?case by simp
next
  case (Cons a xs)
  let ?m = "if e_id a < e_id x then a else x"
  have acc: "e_id (fold (\<lambda>e m. if e_id e < e_id m then e else m) xs ?m) \<le> e_id ?m"
    by (rule fold_least_acc)
  from Cons.prems consider "y = x" | "y = a" | "y \<in> set xs" by auto
  then show ?case
  proof cases
    case 1
    have "e_id ?m \<le> e_id x" by simp
    with acc have "e_id (fold (\<lambda>e m. if e_id e < e_id m then e else m) xs ?m) \<le> e_id x"
      by (rule le_trans)
    with 1 show ?thesis by simp
  next
    case 2
    have "e_id ?m \<le> e_id a" by simp
    with acc have "e_id (fold (\<lambda>e m. if e_id e < e_id m then e else m) xs ?m) \<le> e_id a"
      by (rule le_trans)
    with 2 show ?thesis by simp
  next
    case 3
    then have "e_id (fold (\<lambda>e m. if e_id e < e_id m then e else m) xs ?m) \<le> e_id y"
      by (intro Cons.IH) simp
    then show ?thesis by simp
  qed
qed

lemma findOne_queueing_None:
  "(findOne_queueing E s = None) = (\<forall>e\<in>set (executions s). \<not> eligible E s e)"
proof -
  have "(findOne_queueing E s = None) = (set (queueing_rows E s) = {})"
    by (simp add: findOne_queueing_def split: list.splits)
  then show ?thesis by (auto simp: queueing_rows_set)
qed

lemma findOne_queueing_Some:
  assumes "findOne_queueing E s = Some x"
  shows "(\<exists>e\<in>set (executions s). eligible E s e \<and>
            x = e\<lparr>e_workflow := find (\<lambda>w. w_id w = e_workflowId e) (workflows s)\<rparr>) \<and>
         (\<forall>e\<in>set (executions s). eligible E s e \<longrightarrow> e_id x \<le> e_id e)"
proof -
  from assms obtain y ys where q: "queueing_rows E s = y # ys"
    and x: "x = fold (\<lambda>e m. if e_id e < e_id m then e else m) ys y"
    by (auto simp: findOne_queueing_def split: list.splits)
  have "x \<in> set (queueing_rows E s)" unfolding q x by (rule fold_least_in)
  then have a: "\<exists>e\<in>set (executions s). eligible E s e \<and>
            x = e\<lparr>e_workflow := find (\<lambda>w. w_id w = e_workflowId e) (workflows s)\<rparr>"
    by (auto simp: queueing_rows_set)
  have b: "e_id x \<le> e_id e" if "e \<in> set (executions s)" "eligible E s e" for e
  proof -
    from that have "e\<lparr>e_workflow := find (\<lambda>w. w_id w = e_workflowId e) (workflows s)\<rparr> \<in> set (y # ys)"
      unfolding q [symmetric] queueing_rows_set by blast
    from fold_least_le [OF this] show ?thesis by (simp add: x)
  qed
  from a b show ?thesis by blast
qed

lemma useDataSourceTransaction_fields [simp]:
  "ready (snd (useDataSourceTransaction E tr c s)) = ready s"
  "executing (snd (useDataSourceTransaction E tr c s)) = executing s"
  "pending (snd (useDataSourceTransaction E tr c s)) = pending s"
  "events (snd (useDataSourceTransaction E tr c s)) = events s"
  "tasks (snd (useDataSourceTransaction E tr c s)) = tasks s"
  "checker (snd (useDataSourceTransaction E tr c s)) = checker s"
  "promise_seq (snd (useDataSourceTransaction E tr c s)) = promise_seq s"
  "executions (snd (useDataSourceTransaction E tr c s)) = executions s"
  "workflows (snd (useDataSourceTransaction E tr c s)) = workflows s"
  "exec_seq (snd (useDataSourceTransaction E tr c s)) = exec_seq s"
  by (simp_all add: useDataSourceTransaction_def Let_def)

lemma createExecution_fields [simp]:
  "ready (snd (createExecution E io w c opts s)) = ready s"
  "executing (snd (createExecution E io w c opts s)) = executing s"
  "pending (snd (createExecution E io w c opts s)) = pending s"
  "events (snd (createExecution E io w c opts s)) = events s"
  "tasks (snd (createExecution E io w c opts s)) = tasks s"
  "checker (snd (createExecution E io w c opts s)) = checker s"
  "promise_seq (snd (createExecution E io w c opts s)) = promise_seq s"
  by (simp_all add: createExecution_def useDataSourceTransaction_create Let_def
      split: option.splits sum.splits)

lemma process_settled_fields [simp]:
  "ready (process_settled e out s) = ready s"
  "executing (process_settled e out s) = executing s"
  "pending (process_settled e out s) = pending s"
  "events (process_settled e out s) = events s"
  "tasks (process_settled e out s) = tasks s"
  "checker (process_settled e out s) = checker s"
  "promise_seq (process_settled e out s) = promise_seq s"
  "workflows (process_settled e out s) = workflows s"
  "exec_seq (process_settled e out s) = exec_seq s"
  by (simp_all add: process_settled_def Processor_settled_def process_end_def Let_def
      split: option.splits)

lemma drop_task_fields [simp]:
  "ready (drop_task k s) = ready s" "executing (drop_task k s) = executing s"
  "pending (drop_task k s) = pending s" "events (drop_task k s) = events s"
  "eventsCount (drop_task k s) = eventsCount s" "enabledCache (drop_task k s) = enabledCache s"
  "checker (drop_task k s) = checker s" "workflows (drop_task k s) = workflows s"
  "executions (drop_task k s) = executions s" "tasks (drop_task k s) = remove_nth k (tasks s)"
  "effects (drop_task k s) = effects s" "tx_seq (drop_task k s) = tx_seq s"
  "exec_seq (drop_task k s) = exec_seq s" "promise_seq (drop_task k s) = promise_seq s"
  by (simp_all add: drop_task_def)

lemma dispatch_events_suffix:
  "events (dispatch E s) = events s \<or> events (dispatch E s) = tl (events s)"
proof (cases "ready s \<and> executing s = None")
  case False
  then show ?thesis
    by (cases "ready s") (simp_all add: dispatch_not_ready dispatch_executing)
next
  case True
  show ?thesis
  proof (cases "events s = []")
    case False
    with True show ?thesis by (simp add: dispatch_events prepare_events)
  next
    case e: True
    show ?thesis
    proof (cases "pending s")
      case Nil
      with True e show ?thesis by (simp add: dispatch_poll)
    next
      case (Cons a rest)
      with True e show ?thesis by (cases a) (simp add: dispatch_pending)
    qed
  qed
qed

text \<open>
  C5. A \<^verbatim>\<open>dispatch\<close> call that passes its guards (ready, nothing executing) selects in a
  fixed order. With events queued it is a \<^verbatim>\<open>prepare\<close> call: the head event goes to
  \<^verbatim>\<open>createExecution\<close>, and \<^verbatim>\<open>pending\<close>, the executions and \<^verbatim>\<open>executing\<close> are untouched.
  Otherwise the head of \<^verbatim>\<open>pending\<close> is taken off and handed to \<^verbatim>\<open>process\<close>. Otherwise the
  storage is queried, and when the answer comes (in a state \<open>s'\<close>) it is the eligible row
  (status QUEUEING, workflow enabled) with the least id, which is handed to \<^verbatim>\<open>process\<close>;
  when no row is eligible \<^verbatim>\<open>executing\<close> is cleared and \<^verbatim>\<open>dispatch\<close> is not called again.
\<close>

theorem dispatch_selection:
  assumes "ready s" and "executing s = None"
  shows "(events s \<noteq> [] \<longrightarrow>
            dispatch E s = prepare E s \<and> pending (dispatch E s) = pending s \<and>
            executions (dispatch E s) = executions s \<and> executing (dispatch E s) = None \<and>
            tasks (dispatch E s) = tasks s @ [Preparing (hd (events s))]) \<and>
         (events s = [] \<longrightarrow>
            (\<forall>e j rest. pending s = (e, j) # rest \<longrightarrow>
               pending (dispatch E s) = rest \<and> executing (dispatch E s) = Some (promise_seq s) \<and>
               tasks (dispatch E s) =
                 tasks s @ [Processing (promise_seq s) (fst (process_begin E e j None s)) j]) \<and>
            (pending s = [] \<longrightarrow>
               executing (dispatch E s) = Some (promise_seq s) \<and>
               tasks (dispatch E s) = tasks s @ [Polling (promise_seq s)] \<and>
               executions (dispatch E s) = executions s)) \<and>
         (case findOne_queueing E s' of
            Some x \<Rightarrow>
              (\<exists>e\<in>set (executions s'). eligible E s' e \<and>
                 x = e\<lparr>e_workflow := find (\<lambda>w. w_id w = e_workflowId e) (workflows s')\<rparr>) \<and>
              (\<forall>e\<in>set (executions s'). eligible E s' e \<longrightarrow> e_id x \<le> e_id e) \<and>
              tasks (dispatch_polled E p s') = tasks s' @ [Processing p (x\<lparr>e_status := STARTED E\<rparr>) None]
          | None \<Rightarrow>
              (\<forall>e\<in>set (executions s'). \<not> eligible E s' e) \<and>
              dispatch_polled E p s' = wake p (s'\<lparr>executing := None\<rparr>))"
proof -
  have a: "events s \<noteq> [] \<longrightarrow>
            dispatch E s = prepare E s \<and> pending (dispatch E s) = pending s \<and>
            executions (dispatch E s) = executions s \<and> executing (dispatch E s) = None \<and>
            tasks (dispatch E s) = tasks s @ [Preparing (hd (events s))]"
    using assms by (auto simp: dispatch_events prepare_idle prepare_shift_tasks split: list.splits)
  have b: "pending (dispatch E s) = rest \<and> executing (dispatch E s) = Some (promise_seq s) \<and>
           tasks (dispatch E s) = tasks s @ [Processing (promise_seq s) (fst (process_begin E e j None s)) j]"
    if "events s = []" "pending s = (e, j) # rest" for e j rest
    using assms that by (simp add: dispatch_pending process_begin_fst)
  have c: "events s = [] \<Longrightarrow> pending s = [] \<Longrightarrow>
           executing (dispatch E s) = Some (promise_seq s) \<and>
           tasks (dispatch E s) = tasks s @ [Polling (promise_seq s)] \<and>
           executions (dispatch E s) = executions s"
    using assms by (simp add: dispatch_poll)
  have d: "(case findOne_queueing E s' of
            Some x \<Rightarrow>
              (\<exists>e\<in>set (executions s'). eligible E s' e \<and>
                 x = e\<lparr>e_workflow := find (\<lambda>w. w_id w = e_workflowId e) (workflows s')\<rparr>) \<and>
              (\<forall>e\<in>set (executions s'). eligible E s' e \<longrightarrow> e_id x \<le> e_id e) \<and>
              tasks (dispatch_polled E p s') = tasks s' @ [Processing p (x\<lparr>e_status := STARTED E\<rparr>) None]
          | None \<Rightarrow>
              (\<forall>e\<in>set (executions s'). \<not> eligible E s' e) \<and>
              dispatch_polled E p s' = wake p (s'\<lparr>executing := None\<rparr>))"
  proof (cases "findOne_queueing E s'")
    case None
    then have "\<forall>e\<in>set (executions s'). \<not> eligible E s' e" by (simp add: findOne_queueing_None)
    with None show ?thesis by (simp add: dispatch_polled_def dispatch_finally_def)
  next
    case (Some x)
    note f = findOne_queueing_Some [OF Some]
    then obtain e where "eligible E s' e"
      "x = e\<lparr>e_workflow := find (\<lambda>w. w_id w = e_workflowId e) (workflows s')\<rparr>" by blast
    then have q: "e_status x = QUEUEING E" by (simp add: eligible_iff)
    have "tasks (dispatch_polled E p s') = tasks s' @ [Processing p (x\<lparr>e_status := STARTED E\<rparr>) None]"
      using q by (simp add: dispatch_polled_def Some Let_def case_prod_beta process_begin_fst)
    with f Some show ?thesis by simp
  qed
  from a b c d show ?thesis by blast
qed

theorem dispatch_selection_witness:
  "ready idle0 \<and> executing idle0 = None \<and> events idle0 = [] \<and>
   pending (dispatch env0 idle0) = [] \<and>
   executing (dispatch env0 idle0) = Some 0 \<and>
   tasks (dispatch env0 idle0) = [Processing 0 ex0 None] \<and>
   findOne_queueing env0 stored0 = Some (row0\<lparr>e_id := 3, e_status := None, e_workflow := Some wf0\<rparr>) \<and>
   tasks (dispatch_polled env0 5 stored0) =
     [Processing 5 (row0\<lparr>e_id := 3, e_status := Some 0, e_workflow := Some wf0\<rparr>) None]"
proof -
  have a: "ready idle0" "executing idle0 = None" "events idle0 = []"
    "pending idle0 = [(ex0, None)]" "promise_seq idle0 = 0" "tasks idle0 = []"
    by (simp_all add: idle0_def init_def)
  have f: "findOne_queueing env0 stored0 = Some (row0\<lparr>e_id := 3, e_status := None, e_workflow := Some wf0\<rparr>)"
    by (simp add: findOne_queueing_def queueing_rows_def List.map_filter_simps stored0_def init_def
        row0_def ex0_def wf0_def env0_def)
  have b: "fst (process_begin env0 ex0 None None idle0) = ex0"
    by (simp add: process_begin_fst ex0_def env0_def)
  have t: "tasks stored0 = []" "STARTED env0 = Some 0" by (simp_all add: stored0_def init_def env0_def)
  from dispatch_selection [OF a(1) a(2), of env0 stored0 5] a f b t
  show ?thesis by simp
qed

section \<open>Failures: a throwing Processor, a failing creation\<close>

lemma busy0_eval:
  "busy0 = \<lparr>ready = True, executing = Some 0, pending = [], events = [], eventsCount = 0,
      enabledCache = [], checker = False, workflows = [wf0], executions = [row0],
      tasks = [Starting, Processing 0 ex0 None],
      effects = [Log Info ''pending execution ready to process'', Log Info ''execution starting...'',
                 ProcessorStart 7],
      tx_seq = 0, exec_seq = 8, promise_seq = 1\<rparr>"
  by (simp add: busy0_def init_def afterStart_def start_def dispatch_def process_begin_def
      spawn_def emit_def env0_def ex0_def row0_def Let_def)

lemma step_Processed_dispatched:
  "task_at k s = Some (Processing p execution job) \<Longrightarrow>
   step E (Processed k out) s =
     wake p (dispatch E ((process_settled execution out (drop_task k s))\<lparr>executing := None\<rparr>))"
  by (simp add: dispatch_processed_def dispatch_finally_def Let_def)

text \<open>
  C6. When the \<^verbatim>\<open>process\<close> call of the dispatcher ends, whatever the outcome of the
  Processor, the step is: the rest of \<^verbatim>\<open>process\<close>, then \<^verbatim>\<open>executing\<close> cleared, then
  \<^verbatim>\<open>dispatch\<close> called again (and the \<^verbatim>\<open>prepare\<close> calls waiting for the promise go on). When
  the Processor threw, the rest of \<^verbatim>\<open>process\<close> is the \<^verbatim>\<open>catch\<close> block: one error line is
  logged, nothing is rejected, and the table holds the status the Processor last wrote.
  With the plugin ready and no event queued, the new \<^verbatim>\<open>dispatch\<close> takes the next unit of
  work: a new promise is in \<^verbatim>\<open>executing\<close> and the head of \<^verbatim>\<open>pending\<close> is gone.
\<close>

theorem process_failure_contained:
  assumes "task_at k s = Some (Processing p execution job)"
  shows "step E (Processed k out) s =
           wake p (dispatch E ((process_settled execution out (drop_task k s))\<lparr>executing := None\<rparr>)) \<and>
         (\<forall>msg. out_error out = Some msg \<longrightarrow>
            process_settled execution out (drop_task k s) =
              (drop_task k s)\<lparr>executions := set_status (e_id execution) (out_status out) (executions s),
                               effects := effects s @ [Log Err ''execution error'']\<rparr>) \<and>
         (ready s \<and> events s = [] \<longrightarrow>
            executing (step E (Processed k out) s) = Some (promise_seq s) \<and>
            pending (step E (Processed k out) s) = tl (pending s))"
proof -
  let ?s1 = "(process_settled execution out (drop_task k s))\<lparr>executing := None\<rparr>"
  have a: "step E (Processed k out) s = wake p (dispatch E ?s1)"
    using assms by (rule step_Processed_dispatched)
  have b: "process_settled execution out (drop_task k s) =
              (drop_task k s)\<lparr>executions := set_status (e_id execution) (out_status out) (executions s),
                               effects := effects s @ [Log Err ''execution error'']\<rparr>"
    if "out_error out = Some msg" for msg
    using that by (simp add: process_settled_thrown)
  have c: "executing (wake p (dispatch E ?s1)) = Some (promise_seq s) \<and>
           pending (wake p (dispatch E ?s1)) = tl (pending s)"
    if "ready s" "events s = []"
  proof (cases "pending s")
    case Nil
    with that show ?thesis by (simp add: dispatch_poll)
  next
    case (Cons a rest)
    with that show ?thesis by (cases a) (simp add: dispatch_pending)
  qed
  from a b c show ?thesis by simp
qed

theorem process_failure_contained_witness:
  "task_at 1 busy0 = Some (Processing 0 ex0 None) \<and>
   out_error thrown0 = Some ''instruction failed'' \<and>
   ready busy0 \<and> events busy0 = [] \<and>
   executing (step env0 (Processed 1 thrown0) busy0) = Some 1 \<and>
   pending (step env0 (Processed 1 thrown0) busy0) = [] \<and>
   effects (process_settled ex0 thrown0 (drop_task 1 busy0)) =
     effects busy0 @ [Log Err ''execution error'']"
proof -
  have k: "task_at 1 busy0 = Some (Processing 0 ex0 None)" by (simp add: task_at_def busy0_eval)
  have o: "out_error thrown0 = Some ''instruction failed''" by (simp add: thrown0_def)
  have r: "ready busy0" "events busy0 = []" "promise_seq busy0 = 1" "pending busy0 = []"
    by (simp_all add: busy0_eval)
  note th = process_failure_contained [OF k, of env0 thrown0]
  from th [THEN conjunct2, THEN conjunct1] o
  have 2: "process_settled ex0 thrown0 (drop_task 1 busy0) =
      (drop_task 1 busy0)\<lparr>executions := set_status (e_id ex0) (out_status thrown0) (executions busy0),
                            effects := effects busy0 @ [Log Err ''execution error'']\<rparr>"
    by blast
  from th [THEN conjunct2, THEN conjunct2] r
  have 3: "executing (step env0 (Processed 1 thrown0) busy0) = Some 1 \<and>
           pending (step env0 (Processed 1 thrown0) busy0) = []"
    by simp
  have 4: "effects (process_settled ex0 thrown0 (drop_task 1 busy0)) =
     effects busy0 @ [Log Err ''execution error'']"
    by (simp only: 2) simp
  from k o r 3 4 show ?thesis by blast
qed

text \<open>
  C8. When \<^verbatim>\<open>createExecution\<close> throws for the event that \<^verbatim>\<open>prepare\<close> took off the queue,
  \<^verbatim>\<open>prepare\<close> logs the error and goes on with \<^verbatim>\<open>prepare\<close> when events remain, with
  \<^verbatim>\<open>dispatch\<close> otherwise. The queue afterwards is the queue before or its tail: the failed
  event is not put back. Unless this \<^verbatim>\<open>prepare\<close> must wait for the dispatcher (sqlite), the
  next event of the queue is the one now being created.
\<close>

theorem prepare_failed_event_dropped:
  assumes "fst (createExecution E io workflow ctx options s) = Inl err"
  shows "prepare_created E io (workflow, ctx, options) s =
           (if events s \<noteq> [] then prepare E else dispatch E)
             (emit (Log Err ''failed to create execution'')
                (snd (createExecution E io workflow ctx options s))) \<and>
         (events (prepare_created E io (workflow, ctx, options) s) = events s \<or>
          events (prepare_created E io (workflow, ctx, options) s) = tl (events s)) \<and>
         (events s \<noteq> [] \<and> \<not> (executing s \<noteq> None \<and> dialect E = ''sqlite'') \<longrightarrow>
            events (prepare_created E io (workflow, ctx, options) s) = tl (events s) \<and>
            tasks (prepare_created E io (workflow, ctx, options) s) = tasks s @ [Preparing (hd (events s))])"
proof -
  let ?s2 = "emit (Log Err ''failed to create execution'') (snd (createExecution E io workflow ctx options s))"
  have a: "prepare_created E io (workflow, ctx, options) s =
           (if events s \<noteq> [] then prepare E else dispatch E) ?s2"
    using assms by (simp add: prepare_created_def prepare_settled_def case_prod_beta Let_def)
  have e: "events ?s2 = events s" by simp
  have b: "events ((if events s \<noteq> [] then prepare E else dispatch E) ?s2) = events s \<or>
           events ((if events s \<noteq> [] then prepare E else dispatch E) ?s2) = tl (events s)"
    using prepare_events [of E ?s2] dispatch_events_suffix [of E ?s2]
    by (cases "events s = []") (simp_all only: e if_True if_False not_not, auto)
  have c: "events (prepare E ?s2) = tl (events s) \<and> tasks (prepare E ?s2) = tasks s @ [Preparing (hd (events s))]"
    if "events s \<noteq> []" "\<not> (executing s \<noteq> None \<and> dialect E = ''sqlite'')"
    using that by (auto simp: prepare_def prepare_shift_tasks split: option.splits list.splits)
  from a b c show ?thesis by simp
qed

theorem prepare_failed_event_dropped_witness:
  "fst (createExecution env0 io_refused wf0 ctx0 opts0 queued0) = Inl (Failure ''unique constraint'') \<and>
   events queued0 = [(wf0, ctx0, opts0)] \<and> executing queued0 = None \<and>
   events (prepare_created env0 io_refused (wf0, ctx0, opts0) queued0) = [] \<and>
   tasks (prepare_created env0 io_refused (wf0, ctx0, opts0) queued0) = [Preparing (wf0, ctx0, opts0)]"
proof -
  have c: "fst (createExecution env0 io_refused wf0 ctx0 opts0 queued0) = Inl (Failure ''unique constraint'')"
    by (simp add: createExecution_def useDataSourceTransaction_create env0_def trigger0_def wf0_def
        ctx0_def opts0_def io_refused_def Let_def)
  have q: "events queued0 = [(wf0, ctx0, opts0)]" "executing queued0 = None" "tasks queued0 = []"
    by (simp_all add: queued0_def init_def)
  have d: "dialect env0 \<noteq> ''sqlite''" by (simp add: env0_def)
  from prepare_failed_event_dropped [OF c, THEN conjunct2, THEN conjunct2] q d
  have "events (prepare_created env0 io_refused (wf0, ctx0, opts0) queued0) = [] \<and>
        tasks (prepare_created env0 io_refused (wf0, ctx0, opts0) queued0) = [Preparing (wf0, ctx0, opts0)]"
    by simp
  with c q show ?thesis by blast
qed

section \<open>Mutual exclusion of the dispatcher\<close>

lemma toggle_fields [simp]:
  "ready (toggle E w en sl tr s) = ready s" "executing (toggle E w en sl tr s) = executing s"
  "pending (toggle E w en sl tr s) = pending s" "events (toggle E w en sl tr s) = events s"
  "eventsCount (toggle E w en sl tr s) = eventsCount s"
  "checker (toggle E w en sl tr s) = checker s" "workflows (toggle E w en sl tr s) = workflows s"
  "executions (toggle E w en sl tr s) = executions s" "tasks (toggle E w en sl tr s) = tasks s"
  "tx_seq (toggle E w en sl tr s) = tx_seq s"
  "exec_seq (toggle E w en sl tr s) = exec_seq s" "promise_seq (toggle E w en sl tr s) = promise_seq s"
  by (simp_all add: toggle_def Let_def split: option.splits)

lemma fold_toggle_fields [simp]:
  "ready (fold (\<lambda>w. toggle E w en sl tr) ws s) = ready s"
  "executing (fold (\<lambda>w. toggle E w en sl tr) ws s) = executing s"
  "pending (fold (\<lambda>w. toggle E w en sl tr) ws s) = pending s"
  "events (fold (\<lambda>w. toggle E w en sl tr) ws s) = events s"
  "checker (fold (\<lambda>w. toggle E w en sl tr) ws s) = checker s"
  "workflows (fold (\<lambda>w. toggle E w en sl tr) ws s) = workflows s"
  "executions (fold (\<lambda>w. toggle E w en sl tr) ws s) = executions s"
  "tasks (fold (\<lambda>w. toggle E w en sl tr) ws s) = tasks s"
  "exec_seq (fold (\<lambda>w. toggle E w en sl tr) ws s) = exec_seq s"
  "promise_seq (fold (\<lambda>w. toggle E w en sl tr) ws s) = promise_seq s"
  by (induction ws arbitrary: s) simp_all

lemma onBeforeSave_fields [simp]:
  "ready (snd (onBeforeSave E i tr s)) = ready s" "executing (snd (onBeforeSave E i tr s)) = executing s"
  "pending (snd (onBeforeSave E i tr s)) = pending s" "events (snd (onBeforeSave E i tr s)) = events s"
  "checker (snd (onBeforeSave E i tr s)) = checker s"
  "executions (snd (onBeforeSave E i tr s)) = executions s" "tasks (snd (onBeforeSave E i tr s)) = tasks s"
  "exec_seq (snd (onBeforeSave E i tr s)) = exec_seq s" "promise_seq (snd (onBeforeSave E i tr s)) = promise_seq s"
  by (simp_all add: onBeforeSave_def Let_def split: option.splits)

lemma save_fields [simp]:
  "ready (save E i tr s) = ready s" "executing (save E i tr s) = executing s"
  "pending (save E i tr s) = pending s" "events (save E i tr s) = events s"
  "checker (save E i tr s) = checker s"
  "executions (save E i tr s) = executions s" "tasks (save E i tr s) = tasks s"
  "exec_seq (save E i tr s) = exec_seq s" "promise_seq (save E i tr s) = promise_seq s"
  by (simp_all add: save_def Let_def case_prod_beta)

lemma dispatcher_tasks_frame [simp]:
  "dispatcher_tasks (emit x s) = dispatcher_tasks s"
  "dispatcher_tasks (toggle E w en sl tr s) = dispatcher_tasks s"
  "dispatcher_tasks (fold (\<lambda>w. toggle E w en sl tr) ws s) = dispatcher_tasks s"
  "dispatcher_tasks (save E i tr s) = dispatcher_tasks s"
  "dispatcher_tasks (snd (createExecution E io w c opts s)) = dispatcher_tasks s"
  "dispatcher_tasks (snd (process_begin E e j tr s)) = dispatcher_tasks s"
  "dispatcher_tasks (process_settled e out s) = dispatcher_tasks s"
  by (simp_all add: dispatcher_tasks_def)

lemma dispatcher_tasks_update [simp]:
  "dispatcher_tasks (s\<lparr>ready := a\<rparr>) = dispatcher_tasks s"
  "dispatcher_tasks (s\<lparr>executing := b\<rparr>) = dispatcher_tasks s"
  "dispatcher_tasks (s\<lparr>pending := c\<rparr>) = dispatcher_tasks s"
  "dispatcher_tasks (s\<lparr>events := d\<rparr>) = dispatcher_tasks s"
  "dispatcher_tasks (s\<lparr>eventsCount := n\<rparr>) = dispatcher_tasks s"
  "dispatcher_tasks (s\<lparr>checker := f\<rparr>) = dispatcher_tasks s"
  "dispatcher_tasks (s\<lparr>promise_seq := g\<rparr>) = dispatcher_tasks s"
  by (simp_all add: dispatcher_tasks_def)

lemma dispatcher_tasks_spawn:
  "dispatcher_tasks (spawn t s) = dispatcher_tasks s @ (if iife t \<noteq> None then [t] else [])"
  by (simp add: dispatcher_tasks_def)

lemma dispatcher_tasks_prepare_shift [simp]:
  "dispatcher_tasks (prepare_shift s) = dispatcher_tasks s"
  by (simp add: dispatcher_tasks_def prepare_shift_tasks split: list.splits)

lemma dispatcher_tasks_prepare [simp]:
  "dispatcher_tasks (prepare E s) = dispatcher_tasks s"
  by (simp add: prepare_def dispatcher_tasks_spawn split: option.splits)

lemma dispatcher_tasks_funpow [simp]:
  "dispatcher_tasks ((prepare_shift ^^ n) s) = dispatcher_tasks s"
  by (induction n) simp_all

lemma dispatcher_tasks_wake [simp]:
  "dispatcher_tasks (wake p s) = dispatcher_tasks s"
proof -
  have "filter (\<lambda>t. iife t \<noteq> None) (filter (\<lambda>t. t \<noteq> PrepareWaiting p) ts) =
        filter (\<lambda>t. iife t \<noteq> None) ts" for ts
    by (induction ts) auto
  then show ?thesis by (simp add: wake_def Let_def) (simp add: dispatcher_tasks_def)
qed

lemma remove_nth_filter_other:
  "k < length ts \<Longrightarrow> \<not> P (ts ! k) \<Longrightarrow> filter P (remove_nth k ts) = filter P ts"
proof -
  assume a: "k < length ts" "\<not> P (ts ! k)"
  have "ts = take k ts @ ts ! k # drop (Suc k) ts" using a by (simp add: id_take_nth_drop)
  then have "filter P ts = filter P (take k ts) @ filter P (ts ! k # drop (Suc k) ts)"
    by (metis filter_append)
  with a show ?thesis by (simp add: remove_nth_def)
qed

lemma remove_nth_filter_single:
  "k < length ts \<Longrightarrow> P (ts ! k) \<Longrightarrow> length (filter P ts) \<le> 1 \<Longrightarrow> filter P (remove_nth k ts) = []"
proof -
  assume a: "k < length ts" "P (ts ! k)" "length (filter P ts) \<le> 1"
  have "ts = take k ts @ ts ! k # drop (Suc k) ts" using a by (simp add: id_take_nth_drop)
  then have "filter P ts = filter P (take k ts) @ filter P (ts ! k # drop (Suc k) ts)"
    by (metis filter_append)
  with a have "length (filter P (take k ts)) + Suc (length (filter P (drop (Suc k) ts))) \<le> 1"
    by simp
  then show ?thesis by (simp add: remove_nth_def)
qed

lemma drop_task_other:
  "task_at k s = Some t \<Longrightarrow> iife t = None \<Longrightarrow> dispatcher_tasks (drop_task k s) = dispatcher_tasks s"
  by (auto simp: task_at_def dispatcher_tasks_def remove_nth_filter_other split: if_splits)

lemma exclusive_length: "exclusive s \<Longrightarrow> length (dispatcher_tasks s) \<le> 1"
proof -
  assume "exclusive s"
  then have "length (map iife (dispatcher_tasks s)) \<le> 1"
    by (simp add: exclusive_def split: option.splits)
  then show ?thesis by simp
qed

lemma drop_task_dispatcher:
  "task_at k s = Some t \<Longrightarrow> iife t \<noteq> None \<Longrightarrow> exclusive s \<Longrightarrow> dispatcher_tasks (drop_task k s) = []"
  using exclusive_length [of s]
  by (auto simp: task_at_def dispatcher_tasks_def remove_nth_filter_single split: if_splits)

lemma exclusive_holder:
  assumes "task_at k s = Some t" "iife t = Some p" "exclusive s"
  shows "executing s = Some p"
proof -
  from assms(1) have "t \<in> set (tasks s)" by (auto simp: task_at_def split: if_splits)
  with assms(2) have "t \<in> set (dispatcher_tasks s)" by (simp add: dispatcher_tasks_def)
  then have "Some p \<in> set (map iife (dispatcher_tasks s))" using assms(2) by force
  with assms(3) show ?thesis by (auto simp: exclusive_def split: option.splits)
qed

lemma exclusive_keeps:
  "exclusive s \<Longrightarrow> executing s' = executing s \<Longrightarrow> dispatcher_tasks s' = dispatcher_tasks s \<Longrightarrow> exclusive s'"
  by (simp add: exclusive_def)

lemma dispatch_busy:
  "executing s \<noteq> None \<Longrightarrow>
   dispatch E s = emit (Log Warn (if ready s then ''workflow executing is not finished, new dispatching will be ignored''
                                else ''app is not ready, new dispatching will be ignored'')) s"
  by (simp add: dispatch_def)

lemma dispatch_keeps:
  "executing s \<noteq> None \<Longrightarrow> executing (dispatch E s) = executing s \<and> dispatcher_tasks (dispatch E s) = dispatcher_tasks s"
  by (simp add: dispatch_busy)

lemma dispatch_exclusive: "exclusive s \<Longrightarrow> exclusive (dispatch E s)"
proof (cases "ready s \<and> executing s = None")
  case False
  assume "exclusive s"
  with False show ?thesis
    by (cases "ready s") (simp_all add: dispatch_not_ready dispatch_executing exclusive_def)
next
  case True
  assume x: "exclusive s"
  with True have d: "dispatcher_tasks s = []" by (simp add: exclusive_def)
  show ?thesis
  proof (cases "events s = []")
    case False
    with True x show ?thesis by (simp add: dispatch_events exclusive_def)
  next
    case e: True
    show ?thesis
    proof (cases "pending s")
      case Nil
      with True e d show ?thesis by (simp add: dispatch_poll exclusive_def dispatcher_tasks_spawn)
    next
      case (Cons a rest)
      with True e d show ?thesis
        by (cases a) (simp add: dispatch_pending exclusive_def dispatcher_tasks_spawn)
    qed
  qed
qed

lemma dispatch_finally_exclusive:
  "dispatcher_tasks s = [] \<Longrightarrow> exclusive (dispatch_finally E p b s)"
proof -
  assume d: "dispatcher_tasks s = []"
  then have x: "exclusive (s\<lparr>executing := None\<rparr>)" by (simp add: exclusive_def)
  then have "exclusive (if b then dispatch E (s\<lparr>executing := None\<rparr>) else s\<lparr>executing := None\<rparr>)"
    by (simp add: dispatch_exclusive)
  then show ?thesis by (simp add: dispatch_finally_def Let_def exclusive_def)
qed

lemma dispatch_polled_exclusive:
  assumes "dispatcher_tasks s = []" "executing s = Some p"
  shows "exclusive (dispatch_polled E p s)"
proof (cases "findOne_queueing E s")
  case None
  with assms show ?thesis by (simp add: dispatch_polled_def dispatch_finally_exclusive)
next
  case (Some x)
  with assms show ?thesis
    by (simp add: dispatch_polled_def Let_def case_prod_beta exclusive_def dispatcher_tasks_spawn)
qed

lemma dispatch_processed_exclusive:
  "dispatcher_tasks s = [] \<Longrightarrow> exclusive (dispatch_processed E p e out s)"
  by (simp add: dispatch_processed_def dispatch_finally_exclusive)

lemma undisturbed_keeps:
  "executing s' = executing s \<Longrightarrow> dispatcher_tasks s' = dispatcher_tasks s \<Longrightarrow> undisturbed s s'"
  by (simp add: undisturbed_def exclusive_def)

lemma undisturbed_dispatch:
  assumes "executing s' = executing s" "dispatcher_tasks s' = dispatcher_tasks s"
  shows "undisturbed s (dispatch E s')"
proof -
  have "exclusive s \<Longrightarrow> exclusive (dispatch E s')"
    using assms by (intro dispatch_exclusive) (simp add: exclusive_def)
  moreover have "executing s \<noteq> None \<Longrightarrow>
      executing (dispatch E s') = executing s \<and> dispatcher_tasks (dispatch E s') = dispatcher_tasks s"
    using assms dispatch_keeps [of s' E] by simp
  ultimately show ?thesis by (simp add: undisturbed_def)
qed

lemma undisturbed_refl: "undisturbed s s"
  by (simp add: undisturbed_keeps)

lemma afterStart_undisturbed: "undisturbed s (afterStart s)"
  by (rule undisturbed_keeps) (simp_all add: afterStart_def dispatcher_tasks_spawn)

lemma afterStart_loaded_undisturbed:
  "task_at k s = Some Starting \<Longrightarrow> undisturbed s (afterStart_loaded E (drop_task k s))"
  unfolding afterStart_loaded_def Let_def
  by (rule undisturbed_dispatch) (simp_all add: drop_task_other)

lemma beforeStop_undisturbed: "undisturbed s (beforeStop E s)"
  by (rule undisturbed_keeps) (simp_all add: beforeStop_def Let_def)

lemma save_undisturbed: "undisturbed s (save E i tr s)"
  by (rule undisturbed_keeps) simp_all

lemma trigger_keeps:
  "executing (snd (trigger E w c opts s)) = executing s"
  "dispatcher_tasks (snd (trigger E w c opts s)) = dispatcher_tasks s"
  by (auto simp: trigger_def triggerSync_def Let_def dispatcher_tasks_spawn
      split: option.splits sum.splits bool.splits)

lemma trigger_undisturbed: "undisturbed s (snd (trigger E w c opts s))"
  by (rule undisturbed_keeps) (simp_all add: trigger_keeps)

lemma resume_undisturbed: "undisturbed s (resume E job s)"
proof (cases "case j_execution job of Some e \<Rightarrow> Some e
              | None \<Rightarrow> find (\<lambda>e. e_id e = j_executionId job) (executions s)")
  case None
  then show ?thesis by (simp add: resume_def undisturbed_keeps)
next
  case (Some x)
  then show ?thesis
    by (simp add: resume_def Let_def) (rule undisturbed_dispatch, simp_all)
qed

lemma start_undisturbed: "undisturbed s (start E e s)"
  by (cases "e_status e = STARTED E")
     (simp_all add: start_def undisturbed_refl undisturbed_dispatch)

lemma timer_undisturbed:
  "task_at k s = Some PrepareTimer \<Longrightarrow> undisturbed s (prepare E (drop_task k s))"
  by (rule undisturbed_keeps) (simp_all add: drop_task_other)

lemma prepare_settled_keeps [simp]:
  "executing (prepare_settled E r s) = executing s"
  "tasks (prepare_settled E r s) = tasks s"
  "dispatcher_tasks (prepare_settled E r s) = dispatcher_tasks s"
  "ready (prepare_settled E r s) = ready s"
  "events (prepare_settled E r s) = events s"
  "executions (prepare_settled E r s) = executions s"
  "exec_seq (prepare_settled E r s) = exec_seq s"
  "workflows (prepare_settled E r s) = workflows s"
  by (simp_all add: prepare_settled_def dispatcher_tasks_def split: sum.splits option.splits)

lemma prepare_created_unfold:
  "prepare_created E io (w, c, opts) s =
     (if events s \<noteq> []
      then prepare E (prepare_settled E (fst (createExecution E io w c opts s)) (snd (createExecution E io w c opts s)))
      else dispatch E (prepare_settled E (fst (createExecution E io w c opts s)) (snd (createExecution E io w c opts s))))"
  by (simp add: prepare_created_def case_prod_beta Let_def)

lemma prepare_created_undisturbed:
  assumes "task_at k s = Some (Preparing ev)"
  shows "undisturbed s (prepare_created E io ev (drop_task k s))"
proof -
  obtain w c opts where ev: "ev = (w, c, opts)" by (cases ev) auto
  have d: "dispatcher_tasks (drop_task k s) = dispatcher_tasks s"
    using assms by (simp add: drop_task_other)
  show ?thesis
    unfolding ev prepare_created_unfold
    by (cases "events (drop_task k s) \<noteq> []")
       (simp_all only: if_True if_False, rule undisturbed_keeps, simp, simp add: d,
        rule undisturbed_dispatch, simp, simp add: d)
qed

lemma triggerSync_created_undisturbed:
  assumes "task_at k s = Some (SyncCreating w c opts)"
  shows "undisturbed s (triggerSync_created E io w c opts (drop_task k s))"
proof -
  have d: "dispatcher_tasks (drop_task k s) = dispatcher_tasks s"
    using assms by (simp add: drop_task_other)
  let ?r = "createExecution E io w c opts (drop_task k s)"
  have f: "executing (snd ?r) = executing s" "dispatcher_tasks (snd ?r) = dispatcher_tasks s"
    using d by simp_all
  have "executing (triggerSync_created E io w c opts (drop_task k s)) = executing s \<and>
        dispatcher_tasks (triggerSync_created E io w c opts (drop_task k s)) = dispatcher_tasks s"
    using f
    by (cases ?r; cases "fst ?r")
       (auto simp: triggerSync_created_def Let_def case_prod_beta dispatcher_tasks_spawn
          split: option.splits)
  then show ?thesis by (simp add: undisturbed_keeps)
qed

lemma sync_processed_undisturbed:
  "task_at k s = Some (SyncProcessing e) \<Longrightarrow> undisturbed s (process_settled e out (drop_task k s))"
  by (rule undisturbed_keeps) (simp_all add: drop_task_other)

lemma step_undisturbed: "\<not> settles a s \<Longrightarrow> undisturbed s (step E a s)"
proof (cases a)
  case AfterStart
  then show ?thesis by (simp add: afterStart_undisturbed)
next
  case (StartLoaded k)
  then show ?thesis
    by (auto simp: undisturbed_refl afterStart_loaded_undisturbed split: option.splits task.splits)
next
  case BeforeStop
  then show ?thesis by (simp add: beforeStop_undisturbed)
next
  case CheckerTick
  then show ?thesis by (simp add: undisturbed_refl undisturbed_dispatch)
next
  case (Save i tr)
  then show ?thesis by (simp add: save_undisturbed)
next
  case (TriggerEvent w c opts)
  then show ?thesis by (simp add: trigger_undisturbed)
next
  case (Resume j)
  then show ?thesis by (simp add: resume_undisturbed)
next
  case (Start e)
  then show ?thesis by (simp add: start_undisturbed)
next
  case (TimerFired k)
  then show ?thesis
    by (auto simp: undisturbed_refl timer_undisturbed split: option.splits task.splits)
next
  case (Created k io)
  then show ?thesis
    by (auto simp: undisturbed_refl prepare_created_undisturbed triggerSync_created_undisturbed
        split: option.splits task.splits)
next
  case (Polled k)
  assume "\<not> settles a s"
  with Polled show ?thesis
    by (auto simp: undisturbed_refl split: option.splits task.splits)
next
  case (Processed k out)
  assume "\<not> settles a s"
  with Processed show ?thesis
    by (auto simp: undisturbed_refl sync_processed_undisturbed split: option.splits task.splits)
qed

lemma step_exclusive: "exclusive s \<Longrightarrow> exclusive (step E a s)"
proof (cases "settles a s")
  case False
  assume "exclusive s"
  with step_undisturbed [OF False, of E] show ?thesis by (simp add: undisturbed_def)
next
  case True
  assume x: "exclusive s"
  from True consider
    (polled) k p where "a = Polled k" "task_at k s = Some (Polling p)"
  | (processed) k out p e j where "a = Processed k out" "task_at k s = Some (Processing p e j)"
    by (cases a) (auto split: option.splits task.splits)
  then show ?thesis
  proof cases
    case polled
    from polled(2) x have "dispatcher_tasks (drop_task k s) = []" by (simp add: drop_task_dispatcher)
    moreover from polled(2) x have "executing (drop_task k s) = Some p"
      using exclusive_holder [of k s "Polling p" p] by simp
    ultimately show ?thesis using polled by (simp add: dispatch_polled_exclusive)
  next
    case processed
    from processed(2) x have "dispatcher_tasks (drop_task k s) = []" by (simp add: drop_task_dispatcher)
    then show ?thesis using processed by (simp add: dispatch_processed_exclusive)
  qed
qed

lemma run_exclusive: "exclusive s \<Longrightarrow> exclusive (run E as s)"
  by (induction as arbitrary: s) (simp_all add: step_exclusive)

lemma init_exclusive: "exclusive (init ws es)"
  by (simp add: exclusive_def init_def dispatcher_tasks_def)

lemma dispatched_calls_bound:
  "length (filter dispatched_process_call (tasks s)) \<le> length (dispatcher_tasks s)"
proof -
  have "filter dispatched_process_call ts = filter dispatched_process_call (filter (\<lambda>t. iife t \<noteq> None) ts)" for ts
  proof (induction ts)
    case Nil
    show ?case by simp
  next
    case (Cons t ts)
    then show ?case by (cases t) simp_all
  qed
  then have "filter dispatched_process_call (tasks s) = filter dispatched_process_call (dispatcher_tasks s)"
    by (simp add: dispatcher_tasks_def)
  then show ?thesis by simp
qed

lemma triggerSync_created_tasks:
  assumes "fst (createExecution E io w c opts s) = Inr (Some e)"
  shows "tasks (triggerSync_created E io w c opts s) =
         tasks s @ [SyncProcessing (if e_status e = QUEUEING E then e\<lparr>e_status := STARTED E\<rparr> else e)]"
proof -
  obtain r s1 where c: "createExecution E io w c opts s = (r, s1)" by (cases "createExecution E io w c opts s")
  with assms have r: "r = Inr (Some e)" by simp
  have "tasks s1 = tasks s" using createExecution_fields(5) [of E io w c opts s] c by simp
  then show ?thesis
    by (simp add: triggerSync_created_def c r case_prod_beta Let_def process_begin_fst)
qed

text \<open>
  C2, as the code has it. In every state the plugin can reach, the async functions of the
  dispatcher in flight are exactly the one whose promise \<^verbatim>\<open>executing\<close> holds, so at most
  one \<^verbatim>\<open>process\<close> call made by the dispatcher is active. While \<^verbatim>\<open>executing\<close> is set, a
  \<^verbatim>\<open>dispatch\<close> call only logs a warning, and every action other than the settling of the
  dispatcher's own await leaves \<^verbatim>\<open>executing\<close> and the dispatcher's operation as they are.
  The \<^verbatim>\<open>process\<close> calls that \<^verbatim>\<open>triggerSync\<close> makes are outside this exclusion.
\<close>

theorem dispatcher_exclusion:
  "exclusive (run E as (init ws es)) \<and>
   length (filter dispatched_process_call (tasks (run E as (init ws es)))) \<le> 1 \<and>
   (executing s \<noteq> None \<longrightarrow>
      dispatch E s =
        emit (Log Warn (if ready s then ''workflow executing is not finished, new dispatching will be ignored''
                        else ''app is not ready, new dispatching will be ignored'')) s \<and>
      (\<not> settles a s \<longrightarrow>
         executing (step E a s) = executing s \<and> dispatcher_tasks (step E a s) = dispatcher_tasks s))"
proof -
  have x: "exclusive (run E as (init ws es))"
    by (rule run_exclusive) (rule init_exclusive)
  have "length (filter dispatched_process_call (tasks (run E as (init ws es))))
          \<le> length (dispatcher_tasks (run E as (init ws es)))"
    by (rule dispatched_calls_bound)
  also have "\<dots> \<le> 1" using x by (rule exclusive_length)
  finally have l: "length (filter dispatched_process_call (tasks (run E as (init ws es)))) \<le> 1" .
  have k: "executing (step E a s) = executing s \<and> dispatcher_tasks (step E a s) = dispatcher_tasks s"
    if "executing s \<noteq> None" "\<not> settles a s"
    using step_undisturbed [OF that(2), of E] that(1) by (simp add: undisturbed_def)
  from x l k show ?thesis by (simp add: dispatch_busy)
qed

theorem dispatcher_exclusion_witness:
  "exclusive busy0 \<and> executing busy0 = Some 0 \<and>
   dispatch env0 busy0 =
     emit (Log Warn ''workflow executing is not finished, new dispatching will be ignored'') busy0 \<and>
   executing (step env0 (Start ex0) busy0) = Some 0 \<and>
   dispatcher_tasks (step env0 (Start ex0) busy0) = [Processing 0 ex0 None]"
proof -
  have e: "executing busy0 = Some 0" "ready busy0" "dispatcher_tasks busy0 = [Processing 0 ex0 None]"
    by (simp_all add: busy0_eval dispatcher_tasks_def)
  have n: "\<not> settles (Start ex0) busy0" by simp
  note d = dispatcher_exclusion [of env0 "[AfterStart, Start ex0]" "[wf0]" "[row0]" busy0 "Start ex0",
      folded busy0_def]
  from d have 1: "exclusive busy0" by (rule conjunct1)
  from d e n have 2: "dispatch env0 busy0 =
     emit (Log Warn ''workflow executing is not finished, new dispatching will be ignored'') busy0"
    by simp
  from d e n have 3: "executing (step env0 (Start ex0) busy0) = executing busy0 \<and>
     dispatcher_tasks (step env0 (Start ex0) busy0) = dispatcher_tasks busy0"
    by simp
  from 1 2 3 e show ?thesis by simp
qed

text \<open>
  C2 as stated fails: after \<^verbatim>\<open>afterStart\<close>, \<^verbatim>\<open>start(ex0)\<close>, a manual \<^verbatim>\<open>trigger\<close> and the
  creation of its execution, two \<^verbatim>\<open>process\<close> calls are in flight, the dispatcher's and
  the one \<^verbatim>\<open>triggerSync\<close> made.
\<close>

theorem two_process_calls_counterexample:
  "length (filter process_call
     (tasks (run env0 [AfterStart, Start ex0,
                       TriggerEvent wf0 (Some ctx0) (opts0\<lparr>o_manually := True\<rparr>),
                       Created 2 io0] (init [wf0] [row0])))) = 2"
proof -
  let ?o = "opts0\<lparr>o_manually := True, o_deferred := False\<rparr>"
  let ?s1 = "snd (trigger env0 wf0 (Some ctx0) (opts0\<lparr>o_manually := True\<rparr>) busy0)"
  have r: "run env0 [AfterStart, Start ex0, TriggerEvent wf0 (Some ctx0) (opts0\<lparr>o_manually := True\<rparr>),
                     Created 2 io0] (init [wf0] [row0]) =
           step env0 (Created 2 io0) ?s1"
    by (simp add: busy0_def)
  have t: "tasks ?s1 = [Starting, Processing 0 ex0 None, SyncCreating wf0 ctx0 ?o]"
    by (simp add: busy0_eval trigger_def triggerSync_def spawn_def opts0_def)
  have k: "task_at 2 ?s1 = Some (SyncCreating wf0 ctx0 ?o)"
    by (simp add: task_at_def t)
  have "\<exists>e. fst (createExecution env0 io0 wf0 ctx0 ?o (drop_task 2 ?s1)) = Inr (Some e)"
    by (simp add: createExecution_def useDataSourceTransaction_create
        env0_def trigger0_def wf0_def ctx0_def opts0_def io0_def Let_def)
  then obtain e where "fst (createExecution env0 io0 wf0 ctx0 ?o (drop_task 2 ?s1)) = Inr (Some e)" ..
  then have "tasks (triggerSync_created env0 io0 wf0 ctx0 ?o (drop_task 2 ?s1)) =
      tasks (drop_task 2 ?s1) @
      [SyncProcessing (if e_status e = QUEUEING env0 then e\<lparr>e_status := STARTED env0\<rparr> else e)]"
    by (rule triggerSync_created_tasks)
  then have "tasks (step env0 (Created 2 io0) ?s1) =
      [Starting, Processing 0 ex0 None,
       SyncProcessing (if e_status e = QUEUEING env0 then e\<lparr>e_status := STARTED env0\<rparr> else e)]"
    by (simp add: k t remove_nth_def)
  then show ?thesis unfolding r by simp
qed

section \<open>The status of an execution\<close>

lemma forward_frame:
  "executions s' = executions s \<Longrightarrow> exec_seq s' = exec_seq s \<Longrightarrow> forward Q s s'"
  by (auto simp: forward_def)

lemma forward_refl: "forward Q s s"
  by (simp add: forward_frame)

lemma forward_trans:
  assumes "forward Q s s1" "forward Q s1 s2"
  shows "forward Q s s2"
  unfolding forward_def
proof (intro conjI ballI)
  from assms show "exec_seq s \<le> exec_seq s2" by (simp add: forward_def)
next
  fix e2 assume e2: "e2 \<in> set (executions s2)"
  from assms have le: "exec_seq s \<le> exec_seq s1" "exec_seq s1 \<le> exec_seq s2"
    by (simp_all add: forward_def)
  from assms(2) e2 consider
    (new) "exec_seq s1 \<le> e_id e2" "e_id e2 < exec_seq s2"
  | (old) e1 where "e1 \<in> set (executions s1)" "e_id e1 = e_id e2" "Q (e_status e2) \<longrightarrow> Q (e_status e1)"
    by (auto simp: forward_def)
  then show "(exec_seq s \<le> e_id e2 \<and> e_id e2 < exec_seq s2) \<or>
             (\<exists>e\<in>set (executions s). e_id e = e_id e2 \<and> (Q (e_status e2) \<longrightarrow> Q (e_status e)))"
  proof cases
    case new
    with le show ?thesis by simp
  next
    case old
    from assms(1) old(1) consider
      (new1) "exec_seq s \<le> e_id e1" "e_id e1 < exec_seq s1"
    | (old1) e where "e \<in> set (executions s)" "e_id e = e_id e1" "Q (e_status e1) \<longrightarrow> Q (e_status e)"
      by (auto simp: forward_def)
    then show ?thesis
    proof cases
      case new1
      with le old show ?thesis by simp
    next
      case old1
      with old show ?thesis by auto
    qed
  qed
qed

lemma forward_ids_below: "forward Q s s' \<Longrightarrow> ids_below s \<Longrightarrow> ids_below s'"
  by (fastforce simp: forward_def ids_below_def)

lemma forward_set_status:
  assumes "\<not> Q st" "executions s' = set_status i st (executions s)" "exec_seq s' = exec_seq s"
  shows "forward Q s s'"
  unfolding forward_def using assms by (auto simp: set_status_def)

lemma forward_filter:
  assumes "executions s' = filter P (executions s)" "exec_seq s' = exec_seq s"
  shows "forward Q s s'"
  unfolding forward_def using assms by auto

lemma process_begin_forward: "\<not> Q (STARTED E) \<Longrightarrow> forward Q s (snd (process_begin E e j tr s))"
  by (cases "e_status e = QUEUEING E")
     (simp_all add: forward_set_status [of Q "STARTED E" _ "e_id e"] forward_frame process_begin_executions)

lemma process_settled_forward:
  assumes "\<not> Q (out_status out)"
  shows "forward Q s (process_settled e out s)"
proof -
  let ?s1 = "snd (Processor_settled e out s)"
  have 1: "forward Q s ?s1"
    using assms by (intro forward_set_status [of Q "out_status out" _ "e_id e"]) (simp_all add: Processor_settled_def)
  have "executions (process_settled e out s) = executions ?s1 \<or>
        executions (process_settled e out s) = filter (\<lambda>r. e_id r \<noteq> e_id e) (executions ?s1)"
    by (simp add: process_settled_def Processor_settled_def process_end_def Let_def split: option.splits)
  moreover have "exec_seq (process_settled e out s) = exec_seq ?s1"
    by (simp add: Processor_settled_def)
  ultimately have "forward Q ?s1 (process_settled e out s)"
    by (auto intro: forward_frame forward_filter)
  with 1 show ?thesis by (rule forward_trans)
qed

lemma createExecution_rows:
  "(executions (snd (createExecution E io w c opts s)) = executions s \<and>
    exec_seq (snd (createExecution E io w c opts s)) = exec_seq s) \<or>
   (\<exists>row. e_id row = exec_seq s \<and>
      executions (snd (createExecution E io w c opts s)) = executions s @ [row] \<and>
      exec_seq (snd (createExecution E io w c opts s)) = Suc (exec_seq s))"
  by (simp add: createExecution_def useDataSourceTransaction_create Let_def
      split: option.splits sum.splits)

lemma createExecution_forward: "forward Q s (snd (createExecution E io w c opts s))"
  using createExecution_rows [of E io w c opts s]
  by (auto simp: forward_def)

lemma forward_then_frame:
  "forward Q s s1 \<Longrightarrow> executions s2 = executions s1 \<Longrightarrow> exec_seq s2 = exec_seq s1 \<Longrightarrow> forward Q s s2"
  by (erule forward_trans) (rule forward_frame)

lemma frame_then_forward:
  "forward Q s1 s2 \<Longrightarrow> executions s1 = executions s \<Longrightarrow> exec_seq s1 = exec_seq s \<Longrightarrow> forward Q s s2"
  by (rule forward_trans [OF forward_frame])

lemma dispatch_forward: "\<not> Q (STARTED E) \<Longrightarrow> forward Q s (dispatch E s)"
proof (cases "ready s \<and> executing s = None")
  case False
  then show ?thesis
    by (cases "ready s") (simp_all add: dispatch_not_ready dispatch_executing forward_frame)
next
  case True
  assume q: "\<not> Q (STARTED E)"
  show ?thesis
  proof (cases "events s = []")
    case False
    with True show ?thesis by (simp add: dispatch_events forward_frame)
  next
    case e: True
    show ?thesis
    proof (cases "pending s")
      case Nil
      with True e show ?thesis by (simp add: dispatch_poll forward_frame)
    next
      case (Cons a rest)
      obtain x j where a: "a = (x, j)" by (cases a)
      let ?s0 = "emit (Log Info ''pending execution ready to process'')
                   (s\<lparr>promise_seq := Suc (promise_seq s), pending := rest\<rparr>)"
      have "forward Q ?s0 (snd (process_begin E x j None ?s0))"
        using q by (rule process_begin_forward)
      then have f: "forward Q s (snd (process_begin E x j None ?s0))"
        by (rule frame_then_forward) simp_all
      show ?thesis
        using True e Cons a
        by (intro forward_then_frame [OF f]) (simp_all add: dispatch_pending)
    qed
  qed
qed

lemma dispatch_finally_forward: "\<not> Q (STARTED E) \<Longrightarrow> forward Q s (dispatch_finally E p b s)"
proof -
  assume q: "\<not> Q (STARTED E)"
  let ?s2 = "if b then dispatch E (s\<lparr>executing := None\<rparr>) else s\<lparr>executing := None\<rparr>"
  have "forward Q (s\<lparr>executing := None\<rparr>) ?s2"
    using q by (simp add: dispatch_forward forward_refl)
  then have "forward Q s ?s2" by (rule frame_then_forward) simp_all
  then show ?thesis
    by (rule forward_then_frame) (simp_all add: dispatch_finally_def Let_def)
qed

lemma dispatch_polled_forward: "\<not> Q (STARTED E) \<Longrightarrow> forward Q s (dispatch_polled E p s)"
proof (cases "findOne_queueing E s")
  case None
  assume "\<not> Q (STARTED E)"
  with None show ?thesis by (simp add: dispatch_polled_def dispatch_finally_forward)
next
  case (Some x)
  assume q: "\<not> Q (STARTED E)"
  let ?s1 = "emit (Log Info ''execution fetched from db'') s"
  have "forward Q ?s1 (snd (process_begin E x None None ?s1))"
    using q by (rule process_begin_forward)
  then have f: "forward Q s (snd (process_begin E x None None ?s1))"
    by (rule frame_then_forward) simp_all
  show ?thesis
    using Some
    by (intro forward_then_frame [OF f]) (simp_all add: dispatch_polled_def Let_def case_prod_beta)
qed

lemma dispatch_processed_forward:
  "\<not> Q (STARTED E) \<Longrightarrow> \<not> Q (out_status out) \<Longrightarrow> forward Q s (dispatch_processed E p e out s)"
  unfolding dispatch_processed_def
  by (rule forward_trans [OF process_settled_forward dispatch_finally_forward])

lemma prepare_created_forward:
  assumes "\<not> Q (STARTED E)"
  shows "forward Q s (prepare_created E io ev s)"
proof -
  obtain w c opts where ev: "ev = (w, c, opts)" by (cases ev) auto
  let ?s2 = "prepare_settled E (fst (createExecution E io w c opts s)) (snd (createExecution E io w c opts s))"
  have 1: "forward Q s ?s2"
    by (rule forward_then_frame [OF createExecution_forward]) simp_all
  have "forward Q ?s2 (if events s \<noteq> [] then prepare E ?s2 else dispatch E ?s2)"
    using assms by (simp add: dispatch_forward forward_frame)
  with 1 have "forward Q s (if events s \<noteq> [] then prepare E ?s2 else dispatch E ?s2)"
    by (rule forward_trans)
  then show ?thesis unfolding ev prepare_created_unfold by (simp split: if_splits)
qed

lemma triggerSync_created_forward:
  assumes "\<not> Q (STARTED E)"
  shows "forward Q s (triggerSync_created E io w c opts s)"
proof -
  obtain r s1 where c: "createExecution E io w c opts s = (r, s1)"
    by (cases "createExecution E io w c opts s")
  have 1: "forward Q s s1" using createExecution_forward [of Q s E io w c opts] c by simp
  have "forward Q s1 (triggerSync_created E io w c opts s)"
  proof (cases r)
    case (Inl err)
    with c show ?thesis by (simp add: triggerSync_created_def forward_frame)
  next
    case (Inr v)
    show ?thesis
    proof (cases v)
      case None
      with c Inr show ?thesis by (simp add: triggerSync_created_def forward_frame)
    next
      case (Some x)
      have f: "forward Q s1 (snd (process_begin E x None (o_transaction opts) s1))"
        using assms by (rule process_begin_forward)
      show ?thesis
        using c Inr Some
        by (intro forward_then_frame [OF f]) (simp_all add: triggerSync_created_def Let_def case_prod_beta)
    qed
  qed
  with 1 show ?thesis by (rule forward_trans)
qed

lemma trigger_rows [simp]:
  "executions (snd (trigger E w c opts s)) = executions s"
  "exec_seq (snd (trigger E w c opts s)) = exec_seq s"
  by (auto simp: trigger_def triggerSync_def Let_def split: option.splits sum.splits bool.splits)

lemma resume_forward: "\<not> Q (STARTED E) \<Longrightarrow> forward Q s (resume E job s)"
proof (cases "case j_execution job of Some e \<Rightarrow> Some e
              | None \<Rightarrow> find (\<lambda>e. e_id e = j_executionId job) (executions s)")
  case None
  then show ?thesis by (simp add: resume_def forward_frame)
next
  case (Some x)
  assume "\<not> Q (STARTED E)"
  then show ?thesis
    using Some
    by (simp add: resume_def Let_def) (rule frame_then_forward [OF dispatch_forward], simp_all)
qed

lemma start_forward: "\<not> Q (STARTED E) \<Longrightarrow> forward Q s (start E e s)"
  by (cases "e_status e = STARTED E")
     (simp_all add: start_def forward_refl frame_then_forward [OF dispatch_forward])

lemma afterStart_loaded_forward: "\<not> Q (STARTED E) \<Longrightarrow> forward Q s (afterStart_loaded E s)"
  unfolding afterStart_loaded_def Let_def
  by (rule frame_then_forward [OF dispatch_forward]) simp_all

lemma drop_task_forward: "forward Q (drop_task k s) s' \<Longrightarrow> forward Q s s'"
  by (erule frame_then_forward) simp_all

lemma dropped_forward:
  "\<not> Q (STARTED E) \<Longrightarrow> forward Q s (afterStart_loaded E (drop_task k s))"
  "\<not> Q (STARTED E) \<Longrightarrow> forward Q s (prepare_created E io ev (drop_task k s))"
  "\<not> Q (STARTED E) \<Longrightarrow> forward Q s (triggerSync_created E io w c opts (drop_task k s))"
  "\<not> Q (STARTED E) \<Longrightarrow> forward Q s (dispatch_polled E p (drop_task k s))"
  "\<not> Q (STARTED E) \<Longrightarrow> \<not> Q (out_status out) \<Longrightarrow> forward Q s (dispatch_processed E p e out (drop_task k s))"
  "\<not> Q (out_status out) \<Longrightarrow> forward Q s (process_settled e out (drop_task k s))"
  "forward Q s (prepare E (drop_task k s))"
  by (rule drop_task_forward, rule afterStart_loaded_forward, assumption)
     (rule drop_task_forward, rule prepare_created_forward, assumption,
      rule drop_task_forward, rule triggerSync_created_forward, assumption,
      rule drop_task_forward, rule dispatch_polled_forward, assumption,
      rule drop_task_forward, rule dispatch_processed_forward, assumption, assumption,
      rule drop_task_forward, rule process_settled_forward, assumption,
      rule forward_frame, simp, simp)

lemma step_forward:
  assumes "\<not> Q (STARTED E)" "\<forall>k out. a = Processed k out \<longrightarrow> \<not> Q (out_status out)"
  shows "forward Q s (step E a s)"
proof (cases a)
  case AfterStart
  then show ?thesis by (simp add: afterStart_def forward_frame)
next
  case (StartLoaded k)
  show ?thesis
  proof (cases "task_at k s = Some Starting")
    case True
    with StartLoaded assms show ?thesis
      by (simp add: dropped_forward)
  next
    case False
    with StartLoaded show ?thesis
      by (simp add: forward_refl split: option.splits task.splits)
  qed
next
  case BeforeStop
  then show ?thesis by (simp add: beforeStop_def Let_def forward_frame)
next
  case CheckerTick
  with assms show ?thesis by (simp add: forward_refl dispatch_forward)
next
  case (Save i tr)
  then show ?thesis by (simp add: forward_frame)
next
  case (TriggerEvent w c opts)
  then show ?thesis by (simp add: forward_frame)
next
  case (Resume j)
  with assms show ?thesis by (simp add: resume_forward)
next
  case (Start e)
  with assms show ?thesis by (simp add: start_forward)
next
  case (TimerFired k)
  then show ?thesis
    by (simp add: forward_refl dropped_forward split: option.splits task.splits)
next
  case (Created k io)
  show ?thesis
  proof (cases "task_at k s")
    case None
    with Created show ?thesis by (simp add: forward_refl)
  next
    case (Some t)
    with Created assms show ?thesis
      by (cases t)
         (simp_all add: forward_refl dropped_forward)
  qed
next
  case (Polled k)
  show ?thesis
  proof (cases "task_at k s")
    case None
    with Polled show ?thesis by (simp add: forward_refl)
  next
    case (Some t)
    with Polled assms show ?thesis
      by (cases t) (simp_all add: forward_refl dropped_forward)
  qed
next
  case (Processed k out)
  show ?thesis
  proof (cases "task_at k s")
    case None
    with Processed show ?thesis by (simp add: forward_refl)
  next
    case (Some t)
    with Processed assms show ?thesis
      by (cases t)
         (simp_all add: forward_refl dropped_forward)
  qed
qed

lemma step_ids_below: "ids_below s \<Longrightarrow> ids_below (step E a s)"
  by (rule forward_ids_below [of "\<lambda>st. False"]) (simp_all add: step_forward)

lemma run_ids_below: "ids_below s \<Longrightarrow> ids_below (run E as s)"
  by (induction as arbitrary: s) (simp_all add: step_ids_below)

lemma fold_max_ge: "(m::nat) \<le> fold max xs m"
proof (induction xs arbitrary: m)
  case Nil
  show ?case by simp
next
  case (Cons x xs)
  have "m \<le> max x m" by simp
  also have "\<dots> \<le> fold max xs (max x m)" by (rule Cons.IH)
  finally show ?case by simp
qed

lemma fold_max_member: "(x::nat) \<in> set xs \<Longrightarrow> x \<le> fold max xs m"
proof (induction xs arbitrary: m)
  case Nil
  then show ?case by simp
next
  case (Cons y ys)
  show ?case
  proof (cases "x = y")
    case True
    have "x \<le> max y m" using True by simp
    also have "\<dots> \<le> fold max ys (max y m)" by (rule fold_max_ge)
    finally show ?thesis by simp
  next
    case False
    with Cons.prems have "x \<in> set ys" by simp
    then have "x \<le> fold max ys (max y m)" by (rule Cons.IH)
    then show ?thesis by simp
  qed
qed

lemma init_ids_below: "ids_below (init ws es)"
  by (auto simp: ids_below_def init_def less_Suc_eq_le intro!: fold_max_member)

lemma createExecution_created:
  assumes "fst (createExecution E io w c opts s) = Inr (Some e)"
  shows "e_status e = (if o_deferred opts then STARTED E else QUEUEING E) \<and>
         e_id e = exec_seq s \<and>
         executions (snd (createExecution E io w c opts s)) = executions s @ [e\<lparr>e_workflow := None\<rparr>]"
  using assms
  by (auto simp add: createExecution_def useDataSourceTransaction_create Let_def
      split: option.splits sum.splits if_splits)

lemma forward_not_requeued:
  assumes f: "forward (\<lambda>st. st = q) s s'" and b: "ids_below s"
    and i: "\<exists>e\<in>set (executions s). e_id e = i"
    and n: "\<forall>e\<in>set (executions s). e_id e = i \<longrightarrow> e_status e \<noteq> q"
    and e': "e' \<in> set (executions s')" "e_id e' = i"
  shows "e_status e' \<noteq> q"
proof
  assume q: "e_status e' = q"
  from i b have "i < exec_seq s" by (auto simp: ids_below_def)
  with f e' q obtain e where "e \<in> set (executions s)" "e_id e = i" "e_status e = q"
    by (fastforce simp: forward_def)
  with n show False by blast
qed

lemma process_begin_row:
  assumes "e_status x = QUEUEING E" "r \<in> set (executions (snd (process_begin E x j tr s)))" "e_id r = e_id x"
  shows "e_status r = STARTED E"
  using assms by (auto simp: process_begin_executions set_status_def)

lemma process_begin_untouched:
  "e_status x \<noteq> QUEUEING E \<Longrightarrow>
     fst (process_begin E x j tr s) = x \<and> executions (snd (process_begin E x j tr s)) = executions s"
  by (simp add: process_begin_def Let_def)

lemma ended0_eval:
  "ended0 = (init [wf0] [row0\<lparr>e_status := Some 1\<rparr>])\<lparr>ready := True, tasks := [Starting]\<rparr>"
  by (simp add: ended0_def afterStart_def spawn_def init_def)

text \<open>
  C3, as the code has it. An execution is created with status STARTED when \<^verbatim>\<open>deferred\<close> is
  set and QUEUEING otherwise, and that is the row stored. \<^verbatim>\<open>process\<close>, given an execution
  object whose status is QUEUEING, sets every stored row with the id of the object, and the
  object, to STARTED and leaves the other rows as they are, before it calls the Processor;
  given an object with another status it writes nothing. In every reachable state, a step
  leaves no row QUEUEING that existed before with another status, QUEUEING and STARTED being
  different values; and the same holds of every status other than STARTED, so STARTED is the
  only status the plugin itself writes to an existing row. The Processor is not part of this
  source: the status it reports is the one written for it, and a step that ends a Processor
  run is covered when the status reported is not the one in question.
\<close>

theorem status_never_requeued:
  assumes "QUEUEING E \<noteq> STARTED E"
  shows
  "(\<forall>e. fst (createExecution E io w c opts s) = Inr (Some e) \<longrightarrow>
        e_status e = (if o_deferred opts then STARTED E else QUEUEING E) \<and>
        executions (snd (createExecution E io w c opts s)) = executions s @ [e\<lparr>e_workflow := None\<rparr>]) \<and>
   (e_status x = QUEUEING E \<longrightarrow>
        e_status (fst (process_begin E x j tr s)) = STARTED E \<and>
        (\<forall>r\<in>set (executions (snd (process_begin E x j tr s))). e_id r = e_id x \<longrightarrow> e_status r = STARTED E) \<and>
        executions (snd (process_begin E x j tr s)) =
          map (\<lambda>r. if e_id r = e_id x then r\<lparr>e_status := STARTED E\<rparr> else r) (executions s) \<and>
        effects (snd (process_begin E x j tr s)) =
          effects s @
          [ExecutionUpdate (e_id x) (STARTED E) tr,
           Log Info (if j \<noteq> None then ''execution resuming...'' else ''execution starting...''),
           (case j of Some jb \<Rightarrow> ProcessorResume (e_id x) (j_id jb) | None \<Rightarrow> ProcessorStart (e_id x))]) \<and>
   (e_status x \<noteq> QUEUEING E \<longrightarrow>
        fst (process_begin E x j tr s) = x \<and>
        executions (snd (process_begin E x j tr s)) = executions s) \<and>
   ((\<forall>k out. a = Processed k out \<longrightarrow> out_status out \<noteq> QUEUEING E) \<longrightarrow>
      (\<exists>e\<in>set (executions (run E as (init ws es))). e_id e = i) \<and>
      (\<forall>e\<in>set (executions (run E as (init ws es))). e_id e = i \<longrightarrow> e_status e \<noteq> QUEUEING E) \<longrightarrow>
      (\<forall>e'\<in>set (executions (step E a (run E as (init ws es)))).
          e_id e' = i \<longrightarrow> e_status e' \<noteq> QUEUEING E)) \<and>
   (st \<noteq> STARTED E \<longrightarrow> (\<forall>k out. a = Processed k out \<longrightarrow> out_status out \<noteq> st) \<longrightarrow>
      (\<exists>e\<in>set (executions (run E as (init ws es))). e_id e = i) \<and>
      (\<forall>e\<in>set (executions (run E as (init ws es))). e_id e = i \<longrightarrow> e_status e \<noteq> st) \<longrightarrow>
      (\<forall>e'\<in>set (executions (step E a (run E as (init ws es)))).
          e_id e' = i \<longrightarrow> e_status e' \<noteq> st))"
proof -
  let ?sr = "run E as (init ws es)"
  have 1: "\<forall>e. fst (createExecution E io w c opts s) = Inr (Some e) \<longrightarrow>
        e_status e = (if o_deferred opts then STARTED E else QUEUEING E) \<and>
        executions (snd (createExecution E io w c opts s)) = executions s @ [e\<lparr>e_workflow := None\<rparr>]"
    using createExecution_created [of E io w c opts s] by blast
  have 2: "e_status x = QUEUEING E \<longrightarrow>
        e_status (fst (process_begin E x j tr s)) = STARTED E \<and>
        (\<forall>r\<in>set (executions (snd (process_begin E x j tr s))). e_id r = e_id x \<longrightarrow> e_status r = STARTED E) \<and>
        executions (snd (process_begin E x j tr s)) =
          map (\<lambda>r. if e_id r = e_id x then r\<lparr>e_status := STARTED E\<rparr> else r) (executions s) \<and>
        effects (snd (process_begin E x j tr s)) =
          effects s @
          [ExecutionUpdate (e_id x) (STARTED E) tr,
           Log Info (if j \<noteq> None then ''execution resuming...'' else ''execution starting...''),
           (case j of Some jb \<Rightarrow> ProcessorResume (e_id x) (j_id jb) | None \<Rightarrow> ProcessorStart (e_id x))]"
  proof
    assume q: "e_status x = QUEUEING E"
    have a: "e_status (fst (process_begin E x j tr s)) = STARTED E"
      using q by (simp add: process_begin_status)
    have b: "\<forall>r\<in>set (executions (snd (process_begin E x j tr s))). e_id r = e_id x \<longrightarrow> e_status r = STARTED E"
      using process_begin_row [OF q] by blast
    have c: "executions (snd (process_begin E x j tr s)) =
          map (\<lambda>r. if e_id r = e_id x then r\<lparr>e_status := STARTED E\<rparr> else r) (executions s)"
      using q by (simp add: process_begin_executions set_status_def)
    have d: "effects (snd (process_begin E x j tr s)) =
          effects s @
          [ExecutionUpdate (e_id x) (STARTED E) tr,
           Log Info (if j \<noteq> None then ''execution resuming...'' else ''execution starting...''),
           (case j of Some jb \<Rightarrow> ProcessorResume (e_id x) (j_id jb) | None \<Rightarrow> ProcessorStart (e_id x))]"
      using q by (simp add: process_begin_effects)
    from a b c d show "e_status (fst (process_begin E x j tr s)) = STARTED E \<and>
        (\<forall>r\<in>set (executions (snd (process_begin E x j tr s))). e_id r = e_id x \<longrightarrow> e_status r = STARTED E) \<and>
        executions (snd (process_begin E x j tr s)) =
          map (\<lambda>r. if e_id r = e_id x then r\<lparr>e_status := STARTED E\<rparr> else r) (executions s) \<and>
        effects (snd (process_begin E x j tr s)) =
          effects s @
          [ExecutionUpdate (e_id x) (STARTED E) tr,
           Log Info (if j \<noteq> None then ''execution resuming...'' else ''execution starting...''),
           (case j of Some jb \<Rightarrow> ProcessorResume (e_id x) (j_id jb) | None \<Rightarrow> ProcessorStart (e_id x))]"
      by (intro conjI)
  qed
  have 3: "e_status x \<noteq> QUEUEING E \<longrightarrow>
        fst (process_begin E x j tr s) = x \<and>
        executions (snd (process_begin E x j tr s)) = executions s"
    using process_begin_untouched [of x E j tr s] by blast
  have b: "ids_below ?sr" by (rule run_ids_below) (rule init_ids_below)
  have g: "e_status e' \<noteq> q"
    if s: "q \<noteq> STARTED E"
      and o: "\<forall>k out. a = Processed k out \<longrightarrow> out_status out \<noteq> q"
      and i: "\<exists>e\<in>set (executions ?sr). e_id e = i"
      and n: "\<forall>e\<in>set (executions ?sr). e_id e = i \<longrightarrow> e_status e \<noteq> q"
      and e': "e' \<in> set (executions (step E a ?sr))" "e_id e' = i" for e' q
  proof -
    have "forward (\<lambda>st. st = q) ?sr (step E a ?sr)"
      using s o by (intro step_forward) auto
    from forward_not_requeued [OF this b i n e'] show ?thesis .
  qed
  have 4: "(\<forall>k out. a = Processed k out \<longrightarrow> out_status out \<noteq> QUEUEING E) \<longrightarrow>
      (\<exists>e\<in>set (executions ?sr). e_id e = i) \<and>
      (\<forall>e\<in>set (executions ?sr). e_id e = i \<longrightarrow> e_status e \<noteq> QUEUEING E) \<longrightarrow>
      (\<forall>e'\<in>set (executions (step E a ?sr)). e_id e' = i \<longrightarrow> e_status e' \<noteq> QUEUEING E)"
    using g [of "QUEUEING E"] assms by blast
  have 5: "st \<noteq> STARTED E \<longrightarrow> (\<forall>k out. a = Processed k out \<longrightarrow> out_status out \<noteq> st) \<longrightarrow>
      (\<exists>e\<in>set (executions ?sr). e_id e = i) \<and>
      (\<forall>e\<in>set (executions ?sr). e_id e = i \<longrightarrow> e_status e \<noteq> st) \<longrightarrow>
      (\<forall>e'\<in>set (executions (step E a ?sr)). e_id e' = i \<longrightarrow> e_status e' \<noteq> st)"
    using g [of st] by blast
  from 1 2 3 4 5 show ?thesis by (intro conjI)
qed

theorem status_never_requeued_witness:
  "QUEUEING env0 \<noteq> STARTED env0 \<and>
   map e_status (executions (snd (createExecution env0 io0 wf0 ctx0 opts0 (init [wf0] [])))) = [None] \<and>
   e_status (fst (process_begin env0 (ex0\<lparr>e_status := None\<rparr>) None None stored1)) = Some 0 \<and>
   executions (snd (process_begin env0 (ex0\<lparr>e_status := None\<rparr>) None None stored1)) =
     [row0, row0\<lparr>e_id := 3, e_status := None\<rparr>] \<and>
   executions (snd (process_begin env0 ex0 None None ended0)) = [row0\<lparr>e_status := Some 1\<rparr>] \<and>
   executions (step env0 (Processed 1 suspended0) busy0) = [row0] \<and>
   e_status (hd (executions (step env0 (Processed 1 suspended0) busy0))) \<noteq> QUEUEING env0 \<and>
   e_status (hd (executions (step env0 (Processed 1 suspended0) busy0))) \<noteq> Some 1"
proof -
  have q: "QUEUEING env0 \<noteq> STARTED env0" by (simp add: env0_def)
  note th = status_never_requeued [OF q, of io0 wf0 ctx0 opts0 "init [wf0] []" "ex0\<lparr>e_status := None\<rparr>"
      None None "Processed 1 suspended0" "[AfterStart, Start ex0]" "[wf0]" "[row0]" 7 "Some 1", folded busy0_def]
  note tq = status_never_requeued [OF q, of io0 wf0 ctx0 opts0 stored1 "ex0\<lparr>e_status := None\<rparr>"
      None None "Processed 1 suspended0" "[AfterStart, Start ex0]" "[wf0]" "[row0]" 7 "Some 1",
      THEN conjunct2, THEN conjunct1]
  note tn = status_never_requeued [OF q, of io0 wf0 ctx0 opts0 ended0 ex0
      None None "Processed 1 suspended0" "[AfterStart, Start ex0]" "[wf0]" "[row0]" 7 "Some 1",
      THEN conjunct2, THEN conjunct2, THEN conjunct1]
  have "\<exists>e. fst (createExecution env0 io0 wf0 ctx0 opts0 (init [wf0] [])) = Inr (Some e)"
    by (simp add: createExecution_def useDataSourceTransaction_create env0_def trigger0_def wf0_def
        ctx0_def opts0_def io0_def Let_def)
  then obtain e where e: "fst (createExecution env0 io0 wf0 ctx0 opts0 (init [wf0] [])) = Inr (Some e)" ..
  from th [THEN conjunct1, rule_format, OF e]
  have "e_status e = (if o_deferred opts0 then STARTED env0 else QUEUEING env0) \<and>
        executions (snd (createExecution env0 io0 wf0 ctx0 opts0 (init [wf0] []))) =
          executions (init [wf0] []) @ [e\<lparr>e_workflow := None\<rparr>]" .
  then have 1: "map e_status (executions (snd (createExecution env0 io0 wf0 ctx0 opts0 (init [wf0] [])))) = [None]"
    by (simp add: opts0_def env0_def init_def)
  have s: "e_status (ex0\<lparr>e_status := None\<rparr>) = QUEUEING env0" by (simp add: env0_def)
  from tq [rule_format, OF s, THEN conjunct1]
  have 2: "e_status (fst (process_begin env0 (ex0\<lparr>e_status := None\<rparr>) None None stored1)) = Some 0"
    by (simp add: env0_def)
  from tq [rule_format, OF s, THEN conjunct2, THEN conjunct2, THEN conjunct1]
  have 3: "executions (snd (process_begin env0 (ex0\<lparr>e_status := None\<rparr>) None None stored1)) =
     [row0, row0\<lparr>e_id := 3, e_status := None\<rparr>]"
    by (simp add: stored1_def init_def env0_def row0_def ex0_def)
  have n: "e_status ex0 \<noteq> QUEUEING env0" by (simp add: ex0_def env0_def)
  from tn [rule_format, OF n, THEN conjunct2]
  have 4: "executions (snd (process_begin env0 ex0 None None ended0)) = [row0\<lparr>e_status := Some 1\<rparr>]"
    by (simp add: ended0_eval init_def)
  have k: "task_at 1 busy0 = Some (Processing 0 ex0 None)" by (simp add: task_at_def busy0_eval)
  have r: "out_error suspended0 = None" "\<not> deletes suspended0"
    by (simp_all add: suspended0_def deletes_def truthy_def)
  let ?s1 = "(process_settled ex0 suspended0 (drop_task 1 busy0))\<lparr>executing := None\<rparr>"
  have c: "ready ?s1" "executing ?s1 = None" "events ?s1 = []" "pending ?s1 = []"
    by (simp_all add: busy0_eval)
  have "executions (step env0 (Processed 1 suspended0) busy0) = executions ?s1"
    by (simp only: step_Processed_dispatched [OF k] wake_fields dispatch_poll [OF c]) simp
  also have "\<dots> = set_status 7 (Some 0) [row0]"
    by (simp add: process_settled_returned [OF r(1)] r(2)) (simp add: busy0_eval suspended0_def ex0_def)
  also have "\<dots> = [row0]" by (simp add: set_status_def row0_def ex0_def)
  finally have x: "executions (step env0 (Processed 1 suspended0) busy0) = [row0]" .
  have o: "\<forall>k out. Processed 1 suspended0 = Processed k out \<longrightarrow> out_status out \<noteq> QUEUEING env0"
    by (simp add: suspended0_def env0_def)
  have b: "(\<exists>e\<in>set (executions busy0). e_id e = 7) \<and>
           (\<forall>e\<in>set (executions busy0). e_id e = 7 \<longrightarrow> e_status e \<noteq> QUEUEING env0)"
    by (simp add: busy0_eval row0_def ex0_def env0_def)
  have h: "hd (executions (step env0 (Processed 1 suspended0) busy0))
             \<in> set (executions (step env0 (Processed 1 suspended0) busy0))"
    "e_id (hd (executions (step env0 (Processed 1 suspended0) busy0))) = 7"
    by (simp_all only: x) (simp_all add: row0_def ex0_def)
  from th [THEN conjunct2, THEN conjunct2, THEN conjunct2, THEN conjunct1, rule_format, OF o [rule_format] b h]
  have 5: "e_status (hd (executions (step env0 (Processed 1 suspended0) busy0))) \<noteq> QUEUEING env0" .
  have t: "Some 1 \<noteq> STARTED env0" by (simp add: env0_def)
  have o': "\<forall>k out. Processed 1 suspended0 = Processed k out \<longrightarrow> out_status out \<noteq> Some 1"
    by (simp add: suspended0_def)
  have b': "(\<exists>e\<in>set (executions busy0). e_id e = 7) \<and>
           (\<forall>e\<in>set (executions busy0). e_id e = 7 \<longrightarrow> e_status e \<noteq> Some 1)"
    by (simp add: busy0_eval row0_def ex0_def)
  from th [THEN conjunct2, THEN conjunct2, THEN conjunct2, THEN conjunct2, rule_format, OF t o' [rule_format] b' h]
  have 6: "e_status (hd (executions (step env0 (Processed 1 suspended0) busy0))) \<noteq> Some 1" .
  from q 1 2 3 4 x 5 6 show ?thesis by (intro conjI)
qed

text \<open>
  C3 as stated fails on the order STARTED, then terminal: \<^verbatim>\<open>process\<close> decides by the
  status of the object it is given, not by the stored row. The execution \<open>7\<close> has ended
  with status \<^verbatim>\<open>1\<close>; \<^verbatim>\<open>resume\<close> is called with a job whose attached execution object
  still says QUEUEING (\<^verbatim>\<open>null\<close>); the dispatcher hands it to \<^verbatim>\<open>process\<close>, whose update
  puts the row back to STARTED (\<^verbatim>\<open>0\<close>).
\<close>

theorem terminal_status_restarted_counterexample:
  "QUEUEING env0 = None \<and> STARTED env0 = Some 0 \<and>
   executions ended0 = [row0\<lparr>e_status := Some 1\<rparr>] \<and>
   j_execution job0 = Some (ex0\<lparr>e_status := None\<rparr>) \<and>
   executions (step env0 (Resume job0) ended0) = [row0\<lparr>e_status := Some 0\<rparr>]"
  by (simp add: ended0_eval job0_def resume_def dispatch_def process_begin_def set_status_def
      init_def emit_def spawn_def env0_def ex0_def row0_def Let_def)

section \<open>One current version per key\<close>

lemma find_previous_None:
  "(find_previous i rows = None) =
   (\<forall>r\<in>set rows. \<not> (w_key r = w_key i \<and> w_current r = Some True \<and> w_id r \<noteq> w_id i))"
  by (auto simp: find_previous_def find_None_iff)

lemma find_previous_Some:
  "find_previous i rows = Some p \<Longrightarrow>
   p \<in> set rows \<and> w_key p = w_key i \<and> w_current p = Some True \<and> w_id p \<noteq> w_id i"
  by (auto simp: find_previous_def find_Some_iff)

lemma find_previous_current [simp]:
  "find_previous (i\<lparr>w_current := c\<rparr>) rows = find_previous i rows"
  by (simp add: find_previous_def)

lemma onBeforeSave_fst:
  "fst (onBeforeSave E i tr s) =
     (if w_enabled i \<or> find_previous i (workflows s) = None then i\<lparr>w_current := Some True\<rparr> else i)"
  by (simp add: onBeforeSave_def Let_def split: option.splits)

lemma onBeforeSave_workflows:
  "workflows (snd (onBeforeSave E i tr s)) =
     (case find_previous i (workflows s) of
        None \<Rightarrow> workflows s
      | Some p \<Rightarrow> if becomes_current i then demote_row (w_id p) (workflows s) else workflows s)"
  by (auto simp add: onBeforeSave_def Let_def becomes_current_def split: option.splits)

lemma save_workflows:
  "workflows (save E i tr s) =
     write_row (fst (onBeforeSave E i tr s)) (workflows (snd (onBeforeSave E i tr s)))"
  by (simp add: save_def Let_def case_prod_beta)

lemma demote_row_ids [simp]: "map w_id (demote_row i rows) = map w_id rows"
  by (induction rows) (simp_all add: demote_row_def)

lemma replace_row_ids:
  "map w_id (map (\<lambda>r. if w_id r = w_id m then m else r) rows) = map w_id rows"
  by (induction rows) simp_all

lemma write_row_ids:
  "map w_id (write_row m rows) =
     (if w_id m \<in> set (map w_id rows) then map w_id rows else map w_id rows @ [w_id m])"
  by (simp add: write_row_def replace_row_ids del: set_map)

lemma write_row_distinct: "distinct (map w_id rows) \<Longrightarrow> distinct (map w_id (write_row m rows))"
  by (simp add: write_row_ids del: set_map)

lemma write_row_member:
  assumes "r \<in> set (write_row m rows)"
  shows "r = m \<or> (r \<in> set rows \<and> w_id r \<noteq> w_id m)"
proof (cases "w_id m \<in> set (map w_id rows)")
  case True
  then have "write_row m rows = map (\<lambda>r. if w_id r = w_id m then m else r) rows"
    by (simp only: write_row_def if_True)
  with assms have "r \<in> (\<lambda>r. if w_id r = w_id m then m else r) ` set rows"
    by (simp only: set_map)
  then obtain x where "x \<in> set rows" "r = (if w_id x = w_id m then m else x)" by blast
  then show ?thesis by (cases "w_id x = w_id m") simp_all
next
  case False
  then have "write_row m rows = rows @ [m]"
    by (simp only: write_row_def if_False)
  with assms have "r \<in> set rows \<or> r = m" by auto
  moreover have "w_id x \<noteq> w_id m" if "x \<in> set rows" for x
  proof -
    from that have "w_id x \<in> set (map w_id rows)" by simp
    with False show ?thesis by auto
  qed
  ultimately show ?thesis by blast
qed

lemma demote_row_member:
  assumes "r \<in> set (demote_row i rows)"
  shows "(r \<in> set rows \<and> w_id r \<noteq> i) \<or> (w_id r = i \<and> \<not> w_enabled r \<and> w_current r = None)"
proof -
  from assms obtain x where x: "x \<in> set rows"
    "r = (if w_id x = i then x\<lparr>w_enabled := False, w_current := None\<rparr> else x)"
    by (auto simp: demote_row_def)
  then show ?thesis by (cases "w_id x = i") simp_all
qed

lemma one_current_write_other:
  assumes o: "one_current rows"
    and m: "\<And>r. r \<in> set rows \<Longrightarrow> w_id r \<noteq> w_id m \<Longrightarrow> w_key r = w_key m \<Longrightarrow>
               w_current r = Some True \<Longrightarrow> w_current m \<noteq> Some True"
  shows "one_current (write_row m rows)"
  unfolding one_current_def
proof (intro ballI impI)
  fix a b
  assume a: "a \<in> set (write_row m rows)" and b: "b \<in> set (write_row m rows)"
    and c: "w_key a = w_key b \<and> w_current a = Some True \<and> w_current b = Some True"
  from write_row_member [OF a] write_row_member [OF b]
  consider "a = m" "b = m" | "a = m" "b \<in> set rows" "w_id b \<noteq> w_id m"
    | "b = m" "a \<in> set rows" "w_id a \<noteq> w_id m"
    | "a \<in> set rows" "b \<in> set rows" by blast
  then show "w_id a = w_id b"
  proof cases
    case 1
    then show ?thesis by simp
  next
    case 2
    from c 2 have "w_key b = w_key m" "w_current b = Some True" "w_current m = Some True" by simp_all
    with m [OF 2(2) 2(3)] show ?thesis by simp
  next
    case 3
    from c 3 have "w_key a = w_key m" "w_current a = Some True" "w_current m = Some True" by simp_all
    with m [OF 3(2) 3(3)] show ?thesis by simp
  next
    case 4
    from o have "\<forall>a\<in>set rows. \<forall>b\<in>set rows.
        w_key a = w_key b \<and> w_current a = Some True \<and> w_current b = Some True \<longrightarrow> w_id a = w_id b"
      by (simp only: one_current_def)
    with 4 c show ?thesis by blast
  qed
qed

lemma one_current_demote:
  assumes o: "one_current rows"
  shows "one_current (demote_row i rows)"
  unfolding one_current_def
proof (intro ballI impI)
  fix a b
  assume a: "a \<in> set (demote_row i rows)" and b: "b \<in> set (demote_row i rows)"
    and c: "w_key a = w_key b \<and> w_current a = Some True \<and> w_current b = Some True"
  from demote_row_member [OF a] c have a': "a \<in> set rows" by auto
  from demote_row_member [OF b] c have b': "b \<in> set rows" by auto
  from o have "\<forall>a\<in>set rows. \<forall>b\<in>set rows.
        w_key a = w_key b \<and> w_current a = Some True \<and> w_current b = Some True \<longrightarrow> w_id a = w_id b"
    by (simp only: one_current_def)
  with a' b' c show "w_id a = w_id b" by blast
qed

lemma save_one_current:
  assumes o: "one_current (workflows s)"
  shows "one_current (workflows (save E i tr s))"
proof (cases "find_previous i (workflows s)")
  case None
  then have w: "workflows (snd (onBeforeSave E i tr s)) = workflows s"
    by (simp add: onBeforeSave_workflows)
  from None have m: "fst (onBeforeSave E i tr s) = i\<lparr>w_current := Some True\<rparr>"
    by (simp add: onBeforeSave_fst)
  have n: "w_current r \<noteq> Some True"
    if "r \<in> set (workflows s)" "w_id r \<noteq> w_id i" "w_key r = w_key i" for r
    using None that by (simp add: find_previous_None) blast
  show ?thesis
    unfolding save_workflows w m
  proof (rule one_current_write_other [OF o])
    fix r
    assume "r \<in> set (workflows s)" "w_id r \<noteq> w_id (i\<lparr>w_current := Some True\<rparr>)"
      "w_key r = w_key (i\<lparr>w_current := Some True\<rparr>)" "w_current r = Some True"
    with n [of r] show "w_current (i\<lparr>w_current := Some True\<rparr>) \<noteq> Some True" by simp
  qed
next
  case (Some p)
  note p = find_previous_Some [OF Some]
  show ?thesis
  proof (cases "becomes_current i")
    case False
    then have m: "fst (onBeforeSave E i tr s) = i" "w_current i \<noteq> Some True"
      using Some by (simp_all add: onBeforeSave_fst becomes_current_def)
    from False Some have w: "workflows (snd (onBeforeSave E i tr s)) = workflows s"
      by (simp add: onBeforeSave_workflows)
    show ?thesis
      unfolding save_workflows w m(1)
      by (rule one_current_write_other [OF o]) (rule m(2))
  next
    case True
    with Some have w: "workflows (snd (onBeforeSave E i tr s)) = demote_row (w_id p) (workflows s)"
      by (simp add: onBeforeSave_workflows)
    have k: "w_key (fst (onBeforeSave E i tr s)) = w_key i" "w_id (fst (onBeforeSave E i tr s)) = w_id i"
      by (simp_all add: onBeforeSave_fst)
    from o have oo: "\<forall>a\<in>set (workflows s). \<forall>b\<in>set (workflows s).
        w_key a = w_key b \<and> w_current a = Some True \<and> w_current b = Some True \<longrightarrow> w_id a = w_id b"
      by (simp only: one_current_def)
    have n: "w_current r \<noteq> Some True"
      if r: "r \<in> set (demote_row (w_id p) (workflows s))" "w_id r \<noteq> w_id i" "w_key r = w_key i" for r
    proof
      assume c: "w_current r = Some True"
      from demote_row_member [OF r(1)] c have r': "r \<in> set (workflows s)" "w_id r \<noteq> w_id p" by auto
      from p r(3) c have "w_key r = w_key p \<and> w_current r = Some True \<and> w_current p = Some True" by simp
      with oo r'(1) p have "w_id r = w_id p" by blast
      with r'(2) show False by simp
    qed
    show ?thesis
      unfolding save_workflows w
    proof (rule one_current_write_other [OF one_current_demote [OF o]])
      fix r
      assume "r \<in> set (demote_row (w_id p) (workflows s))"
        "w_id r \<noteq> w_id (fst (onBeforeSave E i tr s))"
        "w_key r = w_key (fst (onBeforeSave E i tr s))" "w_current r = Some True"
      with n [of r] k show "w_current (fst (onBeforeSave E i tr s)) \<noteq> Some True" by simp
    qed
  qed
qed

lemma save_distinct:
  "distinct (map w_id (workflows s)) \<Longrightarrow> distinct (map w_id (workflows (save E i tr s)))"
  unfolding save_workflows
  by (rule write_row_distinct) (simp add: onBeforeSave_workflows split: option.splits)

lemma onBeforeSave_demotes:
  assumes "find_previous i (workflows s) = Some p" "becomes_current i"
  shows "onBeforeSave E i tr s =
     ((if w_enabled i then i\<lparr>w_current := Some True\<rparr> else i),
      toggle E (p\<lparr>w_enabled := False, w_current := None\<rparr>) (Some False) False tr
        (emit (WorkflowUpdate (w_id p) False None tr False)
           (s\<lparr>workflows := demote_row (w_id p) (workflows s)\<rparr>)))"
  using assms
  by (cases "w_enabled i") (simp_all add: onBeforeSave_def Let_def becomes_current_def)

lemma toggle_off_registered:
  assumes "triggers E (w_type w) = Some t"
  shows "toggle E w (Some False) False tr s =
     s\<lparr>effects := effects s @ [TriggerOff (w_type w) w, SyncMessage (w_id w) False tr],
       enabledCache := cache_delete (w_id w) (enabledCache s)\<rparr>"
  using assms by (simp add: toggle_def emit_def Let_def)

lemma cache_delete_absent: "k \<notin> fst ` set (cache_delete k c)"
  by (auto simp: cache_delete_def)

lemma one_current_view:
  "one_current rows =
     (\<forall>x\<in>set (current_view rows). \<forall>y\<in>set (current_view rows).
        fst (snd x) = fst (snd y) \<and> snd (snd x) = Some True \<and> snd (snd y) = Some True \<longrightarrow> fst x = fst y)"
  by (simp add: one_current_def current_view_def)

lemma one_current_cong:
  "current_view rows' = current_view rows \<Longrightarrow> one_current rows' = one_current rows"
  by (simp add: one_current_view)

lemma distinct_cong:
  "current_view rows' = current_view rows \<Longrightarrow> map w_id rows' = map w_id rows"
proof -
  assume "current_view rows' = current_view rows"
  then have "map fst (current_view rows') = map fst (current_view rows)" by simp
  then show ?thesis by (simp add: current_view_def comp_def)
qed

lemma current_view_counters [simp]:
  "current_view (increment_counters i rows) = current_view rows"
  "current_view (update_allExecuted k n rows) = current_view rows"
  by (induction rows) (simp_all add: current_view_def increment_counters_def update_allExecuted_def)

lemma createExecution_view [simp]:
  "current_view (workflows (snd (createExecution E io w c opts s))) = current_view (workflows s)"
  by (simp add: createExecution_def useDataSourceTransaction_create Let_def
      split: option.splits sum.splits)

lemma dispatch_workflows [simp]: "workflows (dispatch E s) = workflows s"
  by (simp add: dispatch_def Let_def case_prod_beta split: list.splits)

lemma dispatch_finally_workflows [simp]: "workflows (dispatch_finally E p b s) = workflows s"
  by (simp add: dispatch_finally_def Let_def)

lemma dispatch_polled_workflows [simp]: "workflows (dispatch_polled E p s) = workflows s"
  by (simp add: dispatch_polled_def Let_def case_prod_beta split: option.splits)

lemma dispatch_processed_workflows [simp]: "workflows (dispatch_processed E p e out s) = workflows s"
  by (simp add: dispatch_processed_def)

lemma prepare_created_view [simp]:
  "current_view (workflows (prepare_created E io ev s)) = current_view (workflows s)"
  by (cases ev) (simp add: prepare_created_unfold)

lemma triggerSync_created_view [simp]:
  "current_view (workflows (triggerSync_created E io w c opts s)) = current_view (workflows s)"
proof -
  obtain r s1 where c: "createExecution E io w c opts s = (r, s1)"
    by (cases "createExecution E io w c opts s")
  have "current_view (workflows s1) = current_view (workflows s)"
    using createExecution_view [of E io w c opts s] c by simp
  moreover have "workflows (triggerSync_created E io w c opts s) = workflows s1"
    by (simp add: triggerSync_created_def c Let_def case_prod_beta split: sum.splits option.splits)
  ultimately show ?thesis by simp
qed

lemma trigger_workflows [simp]: "workflows (snd (trigger E w c opts s)) = workflows s"
  by (auto simp: trigger_def triggerSync_def Let_def split: option.splits sum.splits bool.splits)

lemma resume_workflows [simp]: "workflows (resume E job s) = workflows s"
  by (simp add: resume_def Let_def split: option.splits)

lemma start_workflows [simp]: "workflows (start E e s) = workflows s"
  by (simp add: start_def)

lemma life_cycle_workflows [simp]:
  "workflows (afterStart s) = workflows s"
  "workflows (afterStart_loaded E s) = workflows s"
  "workflows (beforeStop E s) = workflows s"
  by (simp_all add: afterStart_def afterStart_loaded_def beforeStop_def Let_def)

lemma step_view:
  "(\<forall>i tr. a \<noteq> Save i tr) \<Longrightarrow> current_view (workflows (step E a s)) = current_view (workflows s)"
proof (cases a)
  case (Created k io)
  show ?thesis
  proof (cases "task_at k s")
    case None
    with Created show ?thesis by simp
  next
    case (Some t)
    with Created show ?thesis by (cases t) simp_all
  qed
next
  case (Polled k)
  show ?thesis
  proof (cases "task_at k s")
    case None
    with Polled show ?thesis by simp
  next
    case (Some t)
    with Polled show ?thesis by (cases t) simp_all
  qed
next
  case (Processed k out)
  show ?thesis
  proof (cases "task_at k s")
    case None
    with Processed show ?thesis by simp
  next
    case (Some t)
    with Processed show ?thesis by (cases t) simp_all
  qed
next
  case (StartLoaded k)
  show ?thesis
  proof (cases "task_at k s")
    case None
    with StartLoaded show ?thesis by simp
  next
    case (Some t)
    with StartLoaded show ?thesis by (cases t) simp_all
  qed
next
  case (TimerFired k)
  show ?thesis
  proof (cases "task_at k s")
    case None
    with TimerFired show ?thesis by simp
  next
    case (Some t)
    with TimerFired show ?thesis by (cases t) simp_all
  qed
qed simp_all

lemma step_table_ok: "table_ok (workflows s) \<Longrightarrow> table_ok (workflows (step E a s))"
proof (cases "\<exists>i tr. a = Save i tr")
  case True
  assume "table_ok (workflows s)"
  with True show ?thesis by (auto simp: table_ok_def save_distinct save_one_current)
next
  case False
  assume t: "table_ok (workflows s)"
  from False have v: "current_view (workflows (step E a s)) = current_view (workflows s)"
    by (intro step_view) blast
  from t show ?thesis
    unfolding table_ok_def one_current_cong [OF v] distinct_cong [OF v] .
qed

lemma run_table_ok: "table_ok (workflows s) \<Longrightarrow> table_ok (workflows (run E as s))"
  by (induction as arbitrary: s) (simp_all add: step_table_ok)

text \<open>
  C1. A save of a workflow keeps the table in the state "primary keys distinct, at most one
  row per key with \<^verbatim>\<open>current = true\<close>", and so does every other step of the plugin: from
  a table in that state, every state the plugin reaches has its table in that state.
  When the instance is saved as current while another
  row of its key is current, the hook leaves the instance current, updates that row to
  \<^verbatim>\<open>enabled = false, current = null\<close> with the transaction of the save and without
  hooks, and calls \<^verbatim>\<open>toggle(previous, false, { transaction })\<close>: for a registered trigger
  type that is \<^verbatim>\<open>trigger.off\<close>, the removal from \<^verbatim>\<open>enabledCache\<close> and the sync message.
\<close>

theorem current_unique_on_save:
  "(table_ok ws \<longrightarrow> table_ok (workflows (run E as (init ws es)))) \<and>
   (distinct (map w_id (workflows s)) \<and> one_current (workflows s) \<longrightarrow>
       distinct (map w_id (workflows (save E i tr s))) \<and> one_current (workflows (save E i tr s))) \<and>
   (\<forall>p. find_previous i (workflows s) = Some p \<and> becomes_current i \<longrightarrow>
       w_current (fst (onBeforeSave E i tr s)) = Some True \<and>
       snd (onBeforeSave E i tr s) =
         toggle E (p\<lparr>w_enabled := False, w_current := None\<rparr>) (Some False) False tr
           (emit (WorkflowUpdate (w_id p) False None tr False)
              (s\<lparr>workflows := demote_row (w_id p) (workflows s)\<rparr>)) \<and>
       (\<forall>r\<in>set (workflows (save E i tr s)). w_id r = w_id p \<longrightarrow> \<not> w_enabled r \<and> w_current r = None) \<and>
       (\<forall>t. triggers E (w_type p) = Some t \<longrightarrow>
          effects (snd (onBeforeSave E i tr s)) =
            effects s @ [WorkflowUpdate (w_id p) False None tr False,
                         TriggerOff (w_type p) (p\<lparr>w_enabled := False, w_current := None\<rparr>),
                         SyncMessage (w_id p) False tr] \<and>
          w_id p \<notin> fst ` set (enabledCache (snd (onBeforeSave E i tr s)))))"
proof -
  have 1: "distinct (map w_id (workflows s)) \<and> one_current (workflows s) \<longrightarrow>
       distinct (map w_id (workflows (save E i tr s))) \<and> one_current (workflows (save E i tr s))"
    by (simp add: save_distinct save_one_current)
  have 2: "w_current (fst (onBeforeSave E i tr s)) = Some True \<and>
       snd (onBeforeSave E i tr s) =
         toggle E (p\<lparr>w_enabled := False, w_current := None\<rparr>) (Some False) False tr
           (emit (WorkflowUpdate (w_id p) False None tr False)
              (s\<lparr>workflows := demote_row (w_id p) (workflows s)\<rparr>)) \<and>
       (\<forall>r\<in>set (workflows (save E i tr s)). w_id r = w_id p \<longrightarrow> \<not> w_enabled r \<and> w_current r = None) \<and>
       (\<forall>t. triggers E (w_type p) = Some t \<longrightarrow>
          effects (snd (onBeforeSave E i tr s)) =
            effects s @ [WorkflowUpdate (w_id p) False None tr False,
                         TriggerOff (w_type p) (p\<lparr>w_enabled := False, w_current := None\<rparr>),
                         SyncMessage (w_id p) False tr] \<and>
          w_id p \<notin> fst ` set (enabledCache (snd (onBeforeSave E i tr s))))"
    if f: "find_previous i (workflows s) = Some p" and b: "becomes_current i" for p
  proof -
    note d = onBeforeSave_demotes [OF f b, of E tr]
    note q = find_previous_Some [OF f]
    have a: "w_current (fst (onBeforeSave E i tr s)) = Some True"
      using b by (auto simp add: d becomes_current_def)
    have w: "workflows (snd (onBeforeSave E i tr s)) = demote_row (w_id p) (workflows s)"
      by (simp add: d)
    have c: "\<not> w_enabled r \<and> w_current r = None"
      if r: "r \<in> set (workflows (save E i tr s))" "w_id r = w_id p" for r
    proof -
      from r(1) have "r \<in> set (write_row (fst (onBeforeSave E i tr s)) (demote_row (w_id p) (workflows s)))"
        by (simp only: save_workflows w)
      from write_row_member [OF this] r(2) q
      have "r \<in> set (demote_row (w_id p) (workflows s))" by (auto simp: onBeforeSave_fst)
      from demote_row_member [OF this] r(2) show ?thesis by simp
    qed
    have e: "effects (snd (onBeforeSave E i tr s)) =
            effects s @ [WorkflowUpdate (w_id p) False None tr False,
                         TriggerOff (w_type p) (p\<lparr>w_enabled := False, w_current := None\<rparr>),
                         SyncMessage (w_id p) False tr] \<and>
          w_id p \<notin> fst ` set (enabledCache (snd (onBeforeSave E i tr s)))"
      if t: "triggers E (w_type p) = Some t" for t
    proof -
      from t have "triggers E (w_type (p\<lparr>w_enabled := False, w_current := None\<rparr>)) = Some t" by simp
      note toggle_off_registered [OF this]
      then show ?thesis by (simp add: d cache_delete_absent)
    qed
    from a c e show ?thesis by (simp add: d)
  qed
  have 0: "table_ok ws \<longrightarrow> table_ok (workflows (run E as (init ws es)))"
    using run_table_ok [of "init ws es" E as] by (simp add: init_def)
  from 0 1 2 show ?thesis by blast
qed

theorem current_unique_on_save_witness:
  "table_ok [wf0] \<and> table_ok (workflows (run env0 [AfterStart, Save wf1 None] (init [wf0] []))) \<and>
   distinct (map w_id [wf0]) \<and> one_current [wf0] \<and>
   find_previous wf1 [wf0] = Some wf0 \<and> becomes_current wf1 \<and>
   one_current (workflows (save env0 wf1 None (init [wf0] []))) \<and>
   workflows (save env0 wf1 None (init [wf0] [])) =
     [wf0\<lparr>w_enabled := False, w_current := None\<rparr>, wf1\<lparr>w_current := Some True\<rparr>] \<and>
   effects (snd (onBeforeSave env0 wf1 None (init [wf0] []))) =
     [WorkflowUpdate 1 False None None False,
      TriggerOff ''collection'' (wf0\<lparr>w_enabled := False, w_current := None\<rparr>),
      SyncMessage 1 False None]"
proof -
  have w: "workflows (init [wf0] []) = [wf0]" by (simp add: init_def)
  have w2: "effects (init [wf0] []) = []" by (simp add: init_def)
  have d: "distinct (map w_id [wf0])" by simp
  have o: "one_current [wf0]" by (simp add: one_current_def)
  have f: "find_previous wf1 [wf0] = Some wf0" by (simp add: find_previous_def wf1_def wf0_def)
  have b: "becomes_current wf1" by (simp add: becomes_current_def wf1_def wf0_def)
  have t: "triggers env0 (w_type wf0) = Some trigger0" by (simp add: env0_def wf0_def)
  note th = current_unique_on_save [of "[wf0]" env0 "[AfterStart, Save wf1 None]" "[]"
      "init [wf0] []" wf1 None, unfolded w]
  have k: "table_ok [wf0]" using d o by (simp add: table_ok_def)
  from th [THEN conjunct1, rule_format, OF k]
  have 0: "table_ok (workflows (run env0 [AfterStart, Save wf1 None] (init [wf0] [])))" .
  from th [THEN conjunct2, THEN conjunct1, rule_format, OF conjI [OF d o], THEN conjunct2]
  have 1: "one_current (workflows (save env0 wf1 None (init [wf0] [])))" .
  note th2 = th [THEN conjunct2, THEN conjunct2, rule_format, OF conjI [OF f b]]
  from th2 [THEN conjunct2, THEN conjunct2, THEN conjunct2, rule_format, OF t, THEN conjunct1]
  have 3: "effects (snd (onBeforeSave env0 wf1 None (init [wf0] []))) =
     [WorkflowUpdate 1 False None None False,
      TriggerOff ''collection'' (wf0\<lparr>w_enabled := False, w_current := None\<rparr>),
      SyncMessage 1 False None]"
    by (simp add: w2) (simp add: wf0_def)
  have 4: "workflows (save env0 wf1 None (init [wf0] [])) =
     [wf0\<lparr>w_enabled := False, w_current := None\<rparr>, wf1\<lparr>w_current := Some True\<rparr>]"
    using f b
    by (simp add: save_workflows onBeforeSave_workflows onBeforeSave_fst w demote_row_def write_row_def)
       (simp add: wf1_def wf0_def)
  from k 0 d o f b 1 4 3 show ?thesis by (intro conjI)
qed

section \<open>Event intake: the guards of trigger\<close>

lemma trigger_not_ready:
  "\<not> ready s \<Longrightarrow> trigger E workflow context options s =
     (Inr Void, s\<lparr>effects := effects s @
        [Log Warn ''app is not ready, event of workflow will be ignored'',
         Log Debug ''ignored event data'']\<rparr>)"
  by (simp add: trigger_def emit_def)

lemma trigger_not_enabled:
  "ready s \<Longrightarrow> \<not> w_enabled workflow \<Longrightarrow> \<not> o_manually options \<Longrightarrow>
   trigger E workflow context options s =
     (Inr Void, s\<lparr>effects := effects s @
        [Log Warn ''workflow is not enabled, event will be ignored'']\<rparr>)"
  by (simp add: trigger_def emit_def)

lemma trigger_null_context:
  "ready s \<Longrightarrow> o_manually options \<or> w_enabled workflow \<Longrightarrow>
   trigger E workflow None options s =
     (Inr Void, s\<lparr>effects := effects s @
        [Log Warn ''workflow event data context is null, event will be ignored'']\<rparr>)"
  by (cases "o_manually options"; cases "w_enabled workflow"; simp add: trigger_def emit_def)

text \<open>
  C4. When the plugin is not ready, or the workflow is not enabled and the call is not
  manual, or the context is null, \<^verbatim>\<open>trigger\<close> returns \<^verbatim>\<open>undefined\<close> without throwing and
  the state afterwards is the state before with log lines added: no execution row, no
  event in the queue, no task started.
\<close>

theorem trigger_guards_noop:
  assumes "\<not> ready s \<or> (\<not> w_enabled workflow \<and> \<not> o_manually options) \<or> context = None"
  shows "fst (trigger E workflow context options s) = Inr Void \<and>
         (\<exists>logs. logs \<noteq> [] \<and> list_all is_log logs \<and>
            snd (trigger E workflow context options s) = s\<lparr>effects := effects s @ logs\<rparr>)"
proof (cases "ready s")
  case False
  then show ?thesis
    by (simp add: trigger_not_ready)
       (rule exI [of _ "[Log Warn ''app is not ready, event of workflow will be ignored'',
                         Log Debug ''ignored event data'']"],
        simp add: is_log_def)
next
  case True
  note r = this
  show ?thesis
  proof (cases "\<not> w_enabled workflow \<and> \<not> o_manually options")
    case True
    with r show ?thesis
      by (simp add: trigger_not_enabled)
         (rule exI [of _ "[Log Warn ''workflow is not enabled, event will be ignored'']"],
          simp add: is_log_def)
  next
    case False
    with r assms have c: "context = None" by blast
    from False have "o_manually options \<or> w_enabled workflow" by blast
    with r c show ?thesis
      by (simp add: trigger_null_context)
         (rule exI [of _ "[Log Warn ''workflow event data context is null, event will be ignored'']"],
          simp add: is_log_def)
  qed
qed

theorem trigger_guards_noop_witness:
  "fst (trigger env0 wf0 None opts0 (afterStart (init [wf0] []))) = Inr Void \<and>
   events (snd (trigger env0 wf0 None opts0 (afterStart (init [wf0] [])))) = [] \<and>
   executions (snd (trigger env0 wf0 None opts0 (afterStart (init [wf0] [])))) = [] \<and>
   tasks (snd (trigger env0 wf0 None opts0 (afterStart (init [wf0] [])))) = [Starting]"
proof -
  obtain logs where
    "fst (trigger env0 wf0 None opts0 (afterStart (init [wf0] []))) = Inr Void"
    "snd (trigger env0 wf0 None opts0 (afterStart (init [wf0] []))) =
       (afterStart (init [wf0] []))\<lparr>effects := effects (afterStart (init [wf0] [])) @ logs\<rparr>"
    using trigger_guards_noop [of "afterStart (init [wf0] [])" wf0 opts0 None env0] by auto
  then show ?thesis by (simp add: afterStart_def init_def spawn_def)
qed

section \<open>Deferred executions: start\<close>

lemma prepare_leaves_mark:
  "events s \<noteq> [] \<Longrightarrow> length (tasks (prepare E s)) = Suc (length (tasks s))"
  by (cases "events s") (simp_all add: prepare_def prepare_shift_tasks split: option.splits)

lemma dispatch_leaves_mark:
  "length (effects s) + length (tasks s) < length (effects (dispatch E s)) + length (tasks (dispatch E s))"
proof (cases "ready s \<and> executing s = None")
  case False
  then show ?thesis
    by (cases "ready s") (simp_all add: dispatch_not_ready dispatch_executing)
next
  case True
  show ?thesis
  proof (cases "events s = []")
    case False
    have "length (effects s) \<le> length (effects (prepare E s))"
      by (simp add: prepare_def prepare_shift_def split: option.splits list.splits)
    with True False show ?thesis by (simp add: dispatch_events prepare_leaves_mark)
  next
    case e: True
    show ?thesis
    proof (cases "pending s")
      case Nil
      with True e show ?thesis by (simp add: dispatch_poll)
    next
      case (Cons a rest)
      with True e show ?thesis by (cases a) (simp add: dispatch_pending process_begin_effects)
    qed
  qed
qed

lemma dispatch_changes: "dispatch E s \<noteq> s"
  using dispatch_leaves_mark [of s E] by auto

text \<open>
  C10. For an execution whose status is not STARTED, \<^verbatim>\<open>start\<close> leaves the state as it
  is: nothing is pushed onto \<^verbatim>\<open>pending\<close>, and \<^verbatim>\<open>dispatch\<close> is not called (a \<^verbatim>\<open>dispatch\<close>
  call never leaves a state as it is: it logs or starts a task). An execution whose
  status is STARTED is appended to \<^verbatim>\<open>pending\<close> and \<^verbatim>\<open>dispatch\<close> is called.
\<close>

theorem start_only_started:
  "(e_status execution \<noteq> STARTED E \<longrightarrow> start E execution s = s) \<and>
   (e_status execution = STARTED E \<longrightarrow>
      start E execution s = dispatch E (s\<lparr>pending := pending s @ [(execution, None)]\<rparr>)) \<and>
   dispatch E s' \<noteq> s'"
  by (simp add: start_def dispatch_changes)

theorem start_only_started_witness:
  "e_status (ex0\<lparr>e_status := None\<rparr>) \<noteq> STARTED env0 \<and>
   start env0 (ex0\<lparr>e_status := None\<rparr>) (init [wf0] []) = init [wf0] [] \<and>
   e_status ex0 = STARTED env0 \<and>
   start env0 ex0 (init [wf0] []) =
     dispatch env0 ((init [wf0] [])\<lparr>pending := pending (init [wf0] []) @ [(ex0, None)]\<rparr>)"
proof -
  have a: "e_status (ex0\<lparr>e_status := None\<rparr>) \<noteq> STARTED env0" by (simp add: env0_def)
  have b: "e_status ex0 = STARTED env0" by (simp add: env0_def ex0_def)
  from start_only_started [of "ex0\<lparr>e_status := None\<rparr>" env0 "init [wf0] []", THEN conjunct1,
      rule_format, OF a]
  have 1: "start env0 (ex0\<lparr>e_status := None\<rparr>) (init [wf0] []) = init [wf0] []" .
  from start_only_started [of ex0 env0 "init [wf0] []", THEN conjunct2, THEN conjunct1,
      rule_format, OF b]
  have 2: "start env0 ex0 (init [wf0] []) =
     dispatch env0 ((init [wf0] [])\<lparr>pending := pending (init [wf0] []) @ [(ex0, None)]\<rparr>)" .
  from a 1 b 2 show ?thesis by (intro conjI)
qed

end
